theory Spec2Isabelle
  imports Main "HOL-Library.Word" "HOL-Library.Signed_Division" "HOL-Library.Multiset"
begin

unbundle bit_operations_syntax

section \<open>The data of cluster_config.c\<close>

text \<open>
  The ketama ring of arcus-memcached: \<^verbatim>\<open>struct server_item\<close>,
  \<^verbatim>\<open>struct continuum_item\<close> and \<^verbatim>\<open>struct cluster_config\<close> become records.
  A \<^verbatim>\<open>char *\<close> that may be \<^verbatim>\<open>NULL\<close> is a \<open>string option\<close>, an array pointer that
  may be \<^verbatim>\<open>NULL\<close> is a \<open>list option\<close>. A string of the state is a C string: its
  characters before the terminator. The mutex, the logger and the verbosity level
  carry no data of the ring and are left out: the functions are modelled as they run
  under the lock, one at a time. An \<^verbatim>\<open>assert\<close> that fails ends the program
  (\<open>AssertFailed\<close>); a read outside an array, a \<^verbatim>\<open>NULL\<close> string passed to the C library
  and the overflow of an \<^verbatim>\<open>int\<close> counter are \<open>UndefinedBehaviour\<close>.
\<close>

type_synonym uint32_t = "32 word"

type_synonym digest = "nat \<Rightarrow> 8 word"

datatype error = AssertFailed | UndefinedBehaviour

record server_item =
  hostport :: "string option"

record continuum_item =
  index :: uint32_t
  point :: uint32_t

record cluster_config =
  self_id :: uint32_t
  self_hostport :: "string option"
  num_servers :: int
  num_continuum :: int
  servers :: "server_item list option"
  continuum :: "continuum_item list option"
  is_valid :: bool

definition INT_MAX :: int where
  "INT_MAX = 2147483647"

subsection \<open>The allocator\<close>

text \<open>
  \<^verbatim>\<open>calloc\<close> and \<^verbatim>\<open>strdup\<close> may return \<^verbatim>\<open>NULL\<close>. The outcomes of the successive
  requests are an input of the model: \<open>True\<close> grants the request, \<open>False\<close> refuses it,
  and the requests after the end of the list are granted.
\<close>

type_synonym heap = "bool list"

fun alloc :: "heap \<Rightarrow> bool \<times> heap" where
  "alloc [] = (True, [])"
| "alloc (granted # rest) = (granted, rest)"

subsection \<open>C strings\<close>

text \<open>
  A buffer is the list of its bytes before its final terminator; a byte \<open>NUL\<close> inside
  it ends the C string that starts at its first byte (\<open>cstr\<close>), as after
  \<^verbatim>\<open>strtok_r\<close> has cut it.
\<close>

definition NUL :: char where
  "NUL = CHR 0x00"

definition cstr :: "string \<Rightarrow> string" where
  "cstr buf = takeWhile (\<lambda>c. c \<noteq> NUL) buf"

definition at_end :: "string \<Rightarrow> nat \<Rightarrow> bool" where
  "at_end buf k = (length buf \<le> k \<or> buf ! k = NUL)"

definition strspn :: "string \<Rightarrow> char \<Rightarrow> nat" where
  "strspn s d = length (takeWhile (\<lambda>c. c = d \<and> c \<noteq> NUL) s)"

definition strcspn :: "string \<Rightarrow> char \<Rightarrow> nat" where
  "strcspn s d = length (takeWhile (\<lambda>c. c \<noteq> d \<and> c \<noteq> NUL) s)"

text \<open>
  The first call \<^verbatim>\<open>strtok_r(s, delim, &save)\<close> of the C library, for a one-character
  delimiter set: skip the leading delimiters; at the end of the string return \<^verbatim>\<open>NULL\<close>;
  otherwise the token runs to the next delimiter, which is overwritten with \<open>NUL\<close>, or to
  the end of the string. The result is the offset of the token (\<open>None\<close> for \<^verbatim>\<open>NULL\<close>) and
  the buffer as the call leaves it.
\<close>

definition strtok_r :: "string \<Rightarrow> char \<Rightarrow> nat option \<times> string" where
  "strtok_r buf delim =
     (let start = strspn buf delim in
      if at_end buf start then (None, buf)
      else
        let stop = start + strcspn (drop start buf) delim in
        if at_end buf stop then (Some start, buf)
        else (Some start, buf[stop := NUL]))"

section \<open>The server registry: server_item_populate\<close>

text \<open>
  The loop over \<^verbatim>\<open>server_list\<close>, at index \<open>i\<close> with the tokens from \<open>i\<close> on. The inner
  \<^verbatim>\<open>for\<close> over \<^verbatim>\<open>strtok_r\<close> leaves through its \<^verbatim>\<open>break\<close> in the first round, so it runs
  its body once when the first call finds a token and not at all otherwise; in that case
  \<^verbatim>\<open>servers[i].hostport\<close> keeps the \<^verbatim>\<open>NULL\<close> of \<^verbatim>\<open>calloc\<close>. The body duplicates
  \<^verbatim>\<open>server_list[i]\<close> (the buffer from its first byte, not the token) and compares it with
  \<^verbatim>\<open>self_hostport\<close>; \<^verbatim>\<open>strcmp\<close> on a \<^verbatim>\<open>NULL\<close> \<^verbatim>\<open>self_hostport\<close> is undefined, and so is
  the increment of the \<^verbatim>\<open>int\<close> counter beyond \<open>INT_MAX\<close>.
  The result is the return value, the caller's buffers, the server array, \<^verbatim>\<open>*self_id\<close>
  and the rest of the allocator's outcomes.
\<close>

fun server_item_populate_loop ::
  "string option \<Rightarrow> nat \<Rightarrow> string list \<Rightarrow> heap \<Rightarrow> uint32_t \<Rightarrow>
     error + (bool \<times> string list \<times> server_item list \<times> uint32_t \<times> heap)" where
  "server_item_populate_loop self i [] h sid =
     (if INT_MAX < int i then Inl UndefinedBehaviour else Inr (True, [], [], sid, h))"
| "server_item_populate_loop self i (tok # rest) h sid =
     (if INT_MAX < int i then Inl UndefinedBehaviour
      else
        case strtok_r tok (CHR ''-'') of
          (None, buf) \<Rightarrow>
            (case server_item_populate_loop self (i + 1) rest h sid of
               Inl e \<Rightarrow> Inl e
             | Inr (ok, bufs, srvs, sid', h') \<Rightarrow>
                 Inr (ok, buf # bufs, \<lparr>hostport = None\<rparr> # srvs, sid', h'))
        | (Some t, buf) \<Rightarrow>
            (case alloc h of
               (False, h1) \<Rightarrow> Inr (False, buf # rest, [], sid, h1)
             | (True, h1) \<Rightarrow>
                 (case self of
                    None \<Rightarrow> Inl UndefinedBehaviour
                  | Some me \<Rightarrow>
                      (case server_item_populate_loop self (i + 1) rest h1
                              (if me = cstr buf then of_nat i else sid) of
                         Inl e \<Rightarrow> Inl e
                       | Inr (ok, bufs, srvs, sid', h') \<Rightarrow>
                           Inr (ok, buf # bufs, \<lparr>hostport = Some (cstr buf)\<rparr> # srvs, sid', h')))))"

text \<open>
  The whole function: \<^verbatim>\<open>calloc\<close> of the array, then the loop. When it returns false the
  array is freed and \<^verbatim>\<open>*servers\<close> is \<^verbatim>\<open>NULL\<close>: the model returns no entries then.
\<close>

definition server_item_populate ::
  "string option \<Rightarrow> string list \<Rightarrow> heap \<Rightarrow> uint32_t \<Rightarrow>
     error + (bool \<times> string list \<times> server_item list \<times> uint32_t \<times> heap)" where
  "server_item_populate self server_list h sid =
     (case alloc h of
        (False, h1) \<Rightarrow> Inr (False, server_list, [], sid, h1)
      | (True, h1) \<Rightarrow>
          (case server_item_populate_loop self 0 server_list h1 sid of
             Inl e \<Rightarrow> Inl e
           | Inr (ok, bufs, srvs, sid', h2) \<Rightarrow>
               Inr (ok, bufs, if ok then srvs else [], sid', h2)))"

section \<open>The digest engine\<close>

text \<open>
  \<^verbatim>\<open>rfc1321/md5c.c\<close> is included by the file and is not part of it: the digest is a
  parameter \<open>md5\<close> of the model, from the bytes hashed to the array
  \<^verbatim>\<open>unsigned char digest[16]\<close>, read by its index. \<^verbatim>\<open>hash_md5(key, key_length, result)\<close>
  is \<open>md5\<close> at the first \<^verbatim>\<open>key_length\<close> bytes of \<^verbatim>\<open>key\<close>.
  In \<^verbatim>\<open>hash_ketama\<close> the bytes are promoted to \<^verbatim>\<open>int\<close> before they are shifted; the
  shift of a byte above 127 by 24 bits is taken with the value that the cast to
  \<^verbatim>\<open>uint32_t\<close> gives it on a machine with two's complement, the four bytes side by side.
\<close>

definition hash_ketama :: "(string \<Rightarrow> digest) \<Rightarrow> string \<Rightarrow> uint32_t" where
  "hash_ketama md5 key =
     (let digest = md5 key in
        push_bit 24 (ucast (digest 3))
        OR push_bit 16 (ucast (digest 2))
        OR push_bit 8 (ucast (digest 1))
        OR ucast (digest 0))"

definition continuum_item_cmp :: "continuum_item \<Rightarrow> continuum_item \<Rightarrow> int" where
  "continuum_item_cmp ct1 ct2 =
     (if point ct1 = point ct2 then 0
      else if point ct1 > point ct2 then 1
      else - 1)"

section \<open>The ring builder: ketama_continuum_generate\<close>

definition NUM_OF_HASHES :: nat where
  "NUM_OF_HASHES = 40"

definition NUM_PER_HASH :: nat where
  "NUM_PER_HASH = 4"

definition points_per_server :: nat where
  "points_per_server = NUM_OF_HASHES * NUM_PER_HASH"

text \<open>The conversion \<^verbatim>\<open>%u\<close> of \<^verbatim>\<open>snprintf\<close>: an unsigned number in decimal.\<close>

definition digit_char :: "nat \<Rightarrow> char" where
  "digit_char d = char_of (48 + d)"

fun utoa :: "nat \<Rightarrow> string" where
  "utoa n = (if n < 10 then [digit_char n] else utoa (n div 10) @ [digit_char (n mod 10)])"

declare utoa.simps [simp del]

text \<open>
  \<^verbatim>\<open>host_len = snprintf(host, sz, "%s-%u", hostport, hh)\<close> followed by
  \<^verbatim>\<open>hash_md5(host, host_len, digest)\<close>: the bytes that are hashed. \<^verbatim>\<open>snprintf\<close> writes at
  most \<open>sz - 1\<close> characters and the terminator, and returns the length of the whole
  formatted string. When that length is the size \<open>sz\<close> of the array, the digest reads
  the truncated string and its terminator; when it is larger, the digest reads beyond
  the array.
\<close>

definition host_bytes :: "nat \<Rightarrow> string \<Rightarrow> nat \<Rightarrow> error + string" where
  "host_bytes sz hp hh =
     (let formatted = hp @ ''-'' @ utoa hh; host_len = length formatted in
      if host_len < sz then Inr formatted
      else if host_len = sz then Inr (take (sz - 1) formatted @ [NUL])
      else Inl UndefinedBehaviour)"

definition digest_point :: "digest \<Rightarrow> nat \<Rightarrow> uint32_t" where
  "digest_point d nn =
     push_bit 24 (ucast (d (3 + nn * NUM_PER_HASH) AND 0xFF))
     OR push_bit 16 (ucast (d (2 + nn * NUM_PER_HASH) AND 0xFF))
     OR push_bit 8 (ucast (d (1 + nn * NUM_PER_HASH) AND 0xFF))
     OR ucast (d (0 + nn * NUM_PER_HASH) AND 0xFF)"

text \<open>The innermost loop, over \<^verbatim>\<open>nn\<close>: the four points of one digest, for server \<open>ss\<close>.\<close>

definition digest_points :: "digest \<Rightarrow> nat \<Rightarrow> continuum_item list" where
  "digest_points d ss =
     map (\<lambda>nn. \<lparr>index = of_nat ss, point = digest_point d nn\<rparr>) [0..<NUM_PER_HASH]"

text \<open>
  The loop over \<^verbatim>\<open>hh\<close> for one server, at the values of \<^verbatim>\<open>hh\<close> still to run.
  \<^verbatim>\<open>%s\<close> of a \<^verbatim>\<open>NULL\<close> \<^verbatim>\<open>hostport\<close> is undefined.
\<close>

fun hashes_loop ::
  "(string \<Rightarrow> digest) \<Rightarrow> nat \<Rightarrow> nat \<Rightarrow> server_item \<Rightarrow> nat list \<Rightarrow>
     error + continuum_item list" where
  "hashes_loop md5 sz ss srv [] = Inr []"
| "hashes_loop md5 sz ss srv (hh # hhs) =
     (case hostport srv of
        None \<Rightarrow> Inl UndefinedBehaviour
      | Some hp \<Rightarrow>
          (case host_bytes sz hp hh of
             Inl e \<Rightarrow> Inl e
           | Inr host \<Rightarrow>
               (case hashes_loop md5 sz ss srv hhs of
                  Inl e \<Rightarrow> Inl e
                | Inr ps \<Rightarrow> Inr (digest_points (md5 host) ss @ ps))))"

text \<open>The loop over \<^verbatim>\<open>ss\<close>, at server \<open>ss\<close> with the servers from \<open>ss\<close> on.\<close>

fun servers_loop ::
  "(string \<Rightarrow> digest) \<Rightarrow> nat \<Rightarrow> nat \<Rightarrow> server_item list \<Rightarrow>
     error + continuum_item list" where
  "servers_loop md5 sz ss [] = Inr []"
| "servers_loop md5 sz ss (srv # rest) =
     (case hashes_loop md5 sz ss srv [0..<NUM_OF_HASHES] of
        Inl e \<Rightarrow> Inl e
      | Inr ps \<Rightarrow>
          (case servers_loop md5 sz (ss + 1) rest of
             Inl e \<Rightarrow> Inl e
           | Inr qs \<Rightarrow> Inr (ps @ qs)))"

text \<open>
  \<^verbatim>\<open>qsort\<close> belongs to the C library, which fixes its result only up to the order of
  the elements that compare equal: it is a parameter of the model, applied to the
  comparison function, and \<open>qsort_contract\<close> is what the C standard promises of it for
  \<open>continuum_item_cmp\<close>. \<open>insertion_qsort\<close> is one function that keeps the contract.
\<close>

definition qsort_contract ::
  "((continuum_item \<Rightarrow> continuum_item \<Rightarrow> int) \<Rightarrow> continuum_item list \<Rightarrow> continuum_item list)
     \<Rightarrow> bool" where
  "qsort_contract qsort =
     (\<forall>xs. mset (qsort continuum_item_cmp xs) = mset xs
         \<and> sorted_wrt (\<lambda>a b. continuum_item_cmp a b \<le> 0) (qsort continuum_item_cmp xs))"

fun insert_cmp :: "('a \<Rightarrow> 'a \<Rightarrow> int) \<Rightarrow> 'a \<Rightarrow> 'a list \<Rightarrow> 'a list" where
  "insert_cmp cmp x [] = [x]"
| "insert_cmp cmp x (y # ys) = (if cmp x y \<le> 0 then x # y # ys else y # insert_cmp cmp x ys)"

definition insertion_qsort :: "('a \<Rightarrow> 'a \<Rightarrow> int) \<Rightarrow> 'a list \<Rightarrow> 'a list" where
  "insertion_qsort cmp xs = foldr (insert_cmp cmp) xs []"

text \<open>
  The array \<^verbatim>\<open>host\<close> has \<^verbatim>\<open>MAX_SERVER_ITEM_COUNT+10\<close> bytes; the macro comes from
  \<^verbatim>\<open>cluster_config.h\<close> and is the parameter \<open>max_count\<close>. The counter \<^verbatim>\<open>pp\<close> is an
  \<^verbatim>\<open>int\<close> and ends at 160 times the number of servers. The result is \<open>None\<close> when
  \<^verbatim>\<open>calloc\<close> fails (the function returns false), and the sorted array with its length
  otherwise.
\<close>

definition ketama_continuum_generate ::
  "(string \<Rightarrow> digest) \<Rightarrow>
   ((continuum_item \<Rightarrow> continuum_item \<Rightarrow> int) \<Rightarrow> continuum_item list \<Rightarrow> continuum_item list) \<Rightarrow>
   nat \<Rightarrow> server_item list \<Rightarrow> heap \<Rightarrow>
     error + ((continuum_item list \<times> nat) option \<times> heap)" where
  "ketama_continuum_generate md5 qsort max_count srvs h =
     (case alloc h of
        (False, h1) \<Rightarrow> Inr (None, h1)
      | (True, h1) \<Rightarrow>
          if INT_MAX < int (points_per_server * length srvs) then Inl UndefinedBehaviour
          else
            (case servers_loop md5 (max_count + 10) 0 srvs of
               Inl e \<Rightarrow> Inl e
             | Inr ps \<Rightarrow> Inr (Some (qsort continuum_item_cmp ps, length ps), h1)))"

section \<open>The cluster state\<close>

text \<open>
  \<^verbatim>\<open>cluster_config_init\<close>: the state that \<^verbatim>\<open>calloc\<close> zeroes, or \<^verbatim>\<open>NULL\<close> (\<open>None\<close>)
  when it fails.
\<close>

definition cluster_config_init :: "heap \<Rightarrow> cluster_config option" where
  "cluster_config_init h =
     (case alloc h of
        (False, h1) \<Rightarrow> None
      | (True, h1) \<Rightarrow>
          Some \<lparr>self_id = 0, self_hostport = None, num_servers = 0, num_continuum = 0,
                servers = None, continuum = None, is_valid = False\<rparr>)"

text \<open>
  \<^verbatim>\<open>cluster_config_set_hostport\<close>: \<^verbatim>\<open>strndup\<close> keeps at most \<^verbatim>\<open>hostport_len\<close> bytes of the
  string, and its \<^verbatim>\<open>NULL\<close> is stored as it is.
\<close>

definition cluster_config_set_hostport ::
  "cluster_config \<Rightarrow> string \<Rightarrow> nat \<Rightarrow> heap \<Rightarrow> error + cluster_config" where
  "cluster_config_set_hostport config hp hostport_len h =
     (if \<not> hostport_len > 0 then Inl AssertFailed
      else
        case alloc h of
          (False, h1) \<Rightarrow> Inr (config\<lparr>self_hostport := None\<rparr>)
        | (True, h1) \<Rightarrow> Inr (config\<lparr>self_hostport := Some (take hostport_len (cstr hp))\<rparr>))"

text \<open>
  \<^verbatim>\<open>cluster_config_reconfigure\<close>: the local \<^verbatim>\<open>self_id\<close> starts at 0; the two stages run on
  local data; then either the new data is installed with \<^verbatim>\<open>is_valid = true\<close>, or (at
  \<^verbatim>\<open>RECONFIG_FAILED\<close>) only \<^verbatim>\<open>is_valid\<close> is written. The result is the return value, the
  state and the caller's \<^verbatim>\<open>server_list\<close> as the call leaves them; \<^verbatim>\<open>num_servers\<close> is the
  length of \<^verbatim>\<open>server_list\<close>.
\<close>

definition cluster_config_reconfigure ::
  "(string \<Rightarrow> digest) \<Rightarrow>
   ((continuum_item \<Rightarrow> continuum_item \<Rightarrow> int) \<Rightarrow> continuum_item list \<Rightarrow> continuum_item list) \<Rightarrow>
   nat \<Rightarrow> cluster_config \<Rightarrow> string list \<Rightarrow> heap \<Rightarrow>
     error + (bool \<times> cluster_config \<times> string list)" where
  "cluster_config_reconfigure md5 qsort max_count config server_list h =
     (case server_item_populate (self_hostport config) server_list h 0 of
        Inl e \<Rightarrow> Inl e
      | Inr (populated, server_list', new_servers, sid, h1) \<Rightarrow>
          if \<not> populated then Inr (False, config\<lparr>is_valid := False\<rparr>, server_list')
          else
            (case ketama_continuum_generate md5 qsort max_count new_servers h1 of
               Inl e \<Rightarrow> Inl e
             | Inr (None, h2) \<Rightarrow> Inr (False, config\<lparr>is_valid := False\<rparr>, server_list')
             | Inr (Some (new_continuum, n), h2) \<Rightarrow>
                 Inr (True,
                      config\<lparr>self_id := sid,
                             num_servers := int (length server_list),
                             servers := Some new_servers,
                             continuum := Some new_continuum,
                             num_continuum := int n,
                             is_valid := True\<rparr>,
                      server_list')))"

section \<open>The ownership resolver: cluster_config_key_is_mine\<close>

text \<open>
  Pointers into the continuum are offsets from \<^verbatim>\<open>beginp\<close>, as integers: \<^verbatim>\<open>highp\<close> may
  step to \<open>- 1\<close>. \<^verbatim>\<open>(highp - lowp) / 2\<close> is the division of C, which truncates.
  A read at an offset outside the array is undefined.
\<close>

definition midpoint :: "int \<Rightarrow> int \<Rightarrow> int" where
  "midpoint low high = low + (high - low) sdiv 2"

definition first_index :: "continuum_item list \<Rightarrow> error + uint32_t" where
  "first_index ring =
     (case ring of [] \<Rightarrow> Inl UndefinedBehaviour | first # _ \<Rightarrow> Inr (index first))"

text \<open>
  One round of \<^verbatim>\<open>while (1)\<close>, for the array \<open>ring\<close> and \<^verbatim>\<open>endp = beginp + n\<close>: either
  the loop is left (\<open>Inl\<close>, with the server found or the undefined read), or it goes on
  with new limits (\<open>Inr\<close>).
\<close>

definition search_step ::
  "continuum_item list \<Rightarrow> int \<Rightarrow> uint32_t \<Rightarrow> int \<Rightarrow> int \<Rightarrow> (error + uint32_t) + int \<times> int" where
  "search_step ring n digest low high =
     (let mid = midpoint low high in
      if mid = n then Inl (first_index ring)
      else if mid < 0 \<or> int (length ring) \<le> mid then Inl (Inl UndefinedBehaviour)
      else
        let midv = point (ring ! nat mid);
            prev = (if mid = 0 then 0 else point (ring ! nat (mid - 1)))
        in
        if digest \<le> midv \<and> digest > prev then Inl (Inr (index (ring ! nat mid)))
        else
          let low' = (if midv < digest then mid + 1 else low);
              high' = (if midv < digest then high else mid - 1)
          in
          if low' > high' then Inl (first_index ring) else Inr (low', high'))"

lemma midpoint_alt:
  "midpoint low high =
     (if low \<le> high then low + (high - low) div 2 else low - (low - high) div 2)"
  unfolding midpoint_def signed_divide_int_def by (auto simp: sgn_if)

lemma search_step_shrinks:
  assumes "search_step ring n digest low high = Inr (low', high')"
  shows "low' \<le> high' \<and> high' - low' < high - low"
  using assms
  by (auto simp: search_step_def Let_def midpoint_alt split: if_splits)

function continuum_search ::
  "continuum_item list \<Rightarrow> int \<Rightarrow> uint32_t \<Rightarrow> int \<Rightarrow> int \<Rightarrow> error + uint32_t" where
  "continuum_search ring n digest low high =
     (case search_step ring n digest low high of
        Inl r \<Rightarrow> r
      | Inr (low', high') \<Rightarrow> continuum_search ring n digest low' high')"
  by pat_completeness auto
termination
proof (relation "measure (\<lambda>(ring, n, digest, low, high). nat (high - low))")
  show "wf (measure (\<lambda>(ring, n, digest, low, high). nat (high - low)))"
    by simp
next
  fix ring n digest low high x low' high'
  assume "search_step ring n digest low high = Inr x" and "(low', high') = x"
  then have "search_step ring n digest low high = Inr (low', high')"
    by simp
  from search_step_shrinks [OF this]
  show "((ring, n, digest, low', high'), (ring, n, digest, low, high))
          \<in> measure (\<lambda>(ring, n, digest, low, high). nat (high - low))"
    by simp
qed

declare continuum_search.simps [simp del]

text \<open>
  The two \<^verbatim>\<open>assert\<close>s come first (the handle is always there in the model); with
  \<^verbatim>\<open>is_valid\<close> false the function returns true and writes neither \<^verbatim>\<open>*key_id\<close> nor
  \<^verbatim>\<open>*self_id\<close>. The result is the return value and the two words written, when they are.
\<close>

definition cluster_config_key_is_mine ::
  "(string \<Rightarrow> digest) \<Rightarrow> cluster_config \<Rightarrow> string \<Rightarrow>
     error + (bool \<times> (uint32_t \<times> uint32_t) option)" where
  "cluster_config_key_is_mine md5 config key =
     (case continuum config of
        None \<Rightarrow> Inl AssertFailed
      | Some ring \<Rightarrow>
          if is_valid config = False then Inr (True, None)
          else
            (case continuum_search ring (num_continuum config) (hash_ketama md5 key)
                    0 (num_continuum config) of
               Inl e \<Rightarrow> Inl e
             | Inr server \<Rightarrow> Inr (server = self_id config, Some (server, self_id config))))"

section \<open>What the operations do, in the words of the specification\<close>

subsection \<open>The operations of a handle\<close>

text \<open>
  The operations that a caller runs on a handle after \<^verbatim>\<open>cluster_config_init\<close>, each with
  the outcomes of its allocations, and the state each leaves.
  \<^verbatim>\<open>cluster_config_key_is_mine\<close> writes nothing to the state.
\<close>

datatype operation =
    SetHostport string nat heap
  | Reconfigure "string list" heap
  | KeyIsMine string

definition run_operation ::
  "(string \<Rightarrow> digest) \<Rightarrow>
   ((continuum_item \<Rightarrow> continuum_item \<Rightarrow> int) \<Rightarrow> continuum_item list \<Rightarrow> continuum_item list) \<Rightarrow>
   nat \<Rightarrow> cluster_config \<Rightarrow> operation \<Rightarrow> error + cluster_config" where
  "run_operation md5 qsort max_count c op =
     (case op of
        SetHostport hp n h \<Rightarrow> cluster_config_set_hostport c hp n h
      | Reconfigure server_list h \<Rightarrow>
          (case cluster_config_reconfigure md5 qsort max_count c server_list h of
             Inl e \<Rightarrow> Inl e
           | Inr (ok, c', server_list') \<Rightarrow> Inr c')
      | KeyIsMine key \<Rightarrow>
          (case cluster_config_key_is_mine md5 c key of
             Inl e \<Rightarrow> Inl e
           | Inr r \<Rightarrow> Inr c))"

text \<open>A run of operations, one after the other, until one of them does not return.\<close>

fun run_operations ::
  "(string \<Rightarrow> digest) \<Rightarrow>
   ((continuum_item \<Rightarrow> continuum_item \<Rightarrow> int) \<Rightarrow> continuum_item list \<Rightarrow> continuum_item list) \<Rightarrow>
   nat \<Rightarrow> cluster_config \<Rightarrow> operation list \<Rightarrow> error + cluster_config" where
  "run_operations md5 qsort max_count c [] = Inr c"
| "run_operations md5 qsort max_count c (op # ops) =
     (case run_operation md5 qsort max_count c op of
        Inl e \<Rightarrow> Inl e
      | Inr c' \<Rightarrow> run_operations md5 qsort max_count c' ops)"

text \<open>
  The invariant of the cluster state: with the validity flag set, both arrays are there,
  the two counters are their lengths, the ring has 160 points for each server, it
  ascends by point value, and every server index of a point is an index of the server
  array.
\<close>

definition cluster_invariant :: "cluster_config \<Rightarrow> bool" where
  "cluster_invariant c =
     (is_valid c \<longrightarrow>
        (case (servers c, continuum c) of
           (Some srvs, Some ring) \<Rightarrow>
             num_servers c = int (length srvs)
             \<and> num_continuum c = int (length ring)
             \<and> length ring = length srvs * 160
             \<and> sorted (map point ring)
             \<and> list_all (\<lambda>p. unat (index p) < length srvs) ring
         | _ \<Rightarrow> False))"

subsection \<open>The ring points\<close>

text \<open>
  \<open>pointFromDigest\<close>: four bytes of the digest from an offset on, the byte at the offset
  the least significant. \<open>ring_points_spec\<close>: for the server at index \<open>s\<close> and \<open>h\<close> from
  0 to 39, the digest of the address, a dash and \<open>h\<close> in decimal, and its four points at
  the offsets 0, 4, 8 and 12, each with server index \<open>s\<close>.
\<close>

definition pointFromDigest :: "digest \<Rightarrow> nat \<Rightarrow> uint32_t" where
  "pointFromDigest d off =
     of_nat (unat (d off) + 2 ^ 8 * unat (d (off + 1)) + 2 ^ 16 * unat (d (off + 2))
             + 2 ^ 24 * unat (d (off + 3)))"

definition address_points :: "(string \<Rightarrow> digest) \<Rightarrow> nat \<Rightarrow> string \<Rightarrow> continuum_item list" where
  "address_points md5 s address =
     concat (map (\<lambda>h. map (\<lambda>n. \<lparr>index = of_nat s,
                                   point = pointFromDigest (md5 (address @ ''-'' @ utoa h)) (4 * n)\<rparr>)
                             [0..<4])
                 [0..<40])"

definition ring_points_spec :: "(string \<Rightarrow> digest) \<Rightarrow> string list \<Rightarrow> continuum_item list" where
  "ring_points_spec md5 addresses =
     concat (map (\<lambda>s. address_points md5 s (addresses ! s)) [0..<length addresses])"

subsection \<open>The tokens\<close>

text \<open>
  What one round of the loop of \<^verbatim>\<open>server_item_populate\<close> leaves of a token: its buffer
  and its entry of the server array.
\<close>

definition token_buffer :: "string \<Rightarrow> string" where
  "token_buffer tok = snd (strtok_r tok (CHR ''-''))"

definition token_server :: "string \<Rightarrow> server_item" where
  "token_server tok =
     (case strtok_r tok (CHR ''-'') of
        (None, buf) \<Rightarrow> \<lparr>hostport = None\<rparr>
      | (Some t, buf) \<Rightarrow> \<lparr>hostport = Some (cstr buf)\<rparr>)"

text \<open>The assignments to \<^verbatim>\<open>*self_id\<close> over a server array, from index \<open>i\<close> on.\<close>

fun self_scan :: "string \<Rightarrow> nat \<Rightarrow> server_item list \<Rightarrow> uint32_t \<Rightarrow> uint32_t" where
  "self_scan me i [] sid = sid"
| "self_scan me i (srv # rest) sid =
     self_scan me (i + 1) rest (if hostport srv = Some me then of_nat i else sid)"



subsection \<open>Sample values\<close>

text \<open>
  A handle as \<^verbatim>\<open>cluster_config_init\<close> returns it, the same handle with the node at the
  address \<open>a\<close>, and a digest function whose sixteen bytes all are the length of the
  input: the concrete values at which the theorems are applied.
\<close>

definition fresh_config :: cluster_config where
  "fresh_config =
     \<lparr>self_id = 0, self_hostport = None, num_servers = 0, num_continuum = 0,
      servers = None, continuum = None, is_valid = False\<rparr>"

definition node_a :: cluster_config where
  "node_a = fresh_config\<lparr>self_hostport := Some ''a''\<rparr>"

definition length_digest :: "string \<Rightarrow> digest" where
  "length_digest s k = of_nat (length s)"

text \<open>The handle \<open>node_a\<close> after a reconfiguration with the one server \<open>a\<close>.\<close>

definition installed_a :: cluster_config where
  "installed_a =
     node_a\<lparr>self_id := 0, num_servers := 1,
            servers := Some [\<lparr>hostport = Some ''a''\<rparr>],
            continuum := Some (insertion_qsort continuum_item_cmp
                                 (ring_points_spec length_digest [''a''])),
            num_continuum := 160, is_valid := True\<rparr>"

section \<open>The allocator and the start of a handle\<close>

lemma init_fresh: "cluster_config_init [] = Some fresh_config"
  by (simp add: cluster_config_init_def fresh_config_def)

lemma set_hostport_node_a: "cluster_config_set_hostport fresh_config ''a'' 1 [] = Inr node_a"
  by (simp add: cluster_config_set_hostport_def node_a_def cstr_def NUL_def)

section \<open>The registry loop, token by token\<close>

lemma populate_loop_True:
  "server_item_populate_loop self i toks h sid = Inr (True, bufs, srvs, sid', h')
   \<Longrightarrow> bufs = map token_buffer toks \<and> srvs = map token_server toks"
proof (induction toks arbitrary: i h sid bufs srvs)
  case Nil
  then show ?case by (simp split: if_splits)
next
  case (Cons tok rest)
  then show ?case
    by (auto simp: token_buffer_def token_server_def
             split: if_splits prod.splits option.splits sum.splits bool.splits)
qed

lemma populate_loop_scan:
  "server_item_populate_loop (Some me) i toks h sid = Inr (True, bufs, srvs, sid', h')
   \<Longrightarrow> sid' = self_scan me i srvs sid"
proof (induction toks arbitrary: i h sid bufs srvs)
  case Nil
  then show ?case by (auto split: if_splits)
next
  case (Cons tok rest)
  then show ?case
    by (auto split: if_splits prod.splits option.splits sum.splits bool.splits)
qed

lemma self_scan_append:
  "self_scan me i (xs @ ys) sid = self_scan me (i + length xs) ys (self_scan me i xs sid)"
  by (induction xs arbitrary: i sid) auto

lemma self_scan_none:
  "\<forall>s \<in> set xs. hostport s \<noteq> Some me \<Longrightarrow> self_scan me i xs sid = sid"
  by (induction xs arbitrary: i) auto

lemma self_scan_last:
  assumes "j < length srvs" and "hostport (srvs ! j) = Some me"
    and "\<forall>k. j < k \<and> k < length srvs \<longrightarrow> hostport (srvs ! k) \<noteq> Some me"
  shows "self_scan me i srvs sid = of_nat (i + j)"
proof -
  have split: "srvs = take j srvs @ (srvs ! j # drop (Suc j) srvs)"
    using assms(1) by (simp add: id_take_nth_drop [symmetric])
  have rest: "\<forall>s \<in> set (drop (Suc j) srvs). hostport s \<noteq> Some me"
  proof
    fix s assume "s \<in> set (drop (Suc j) srvs)"
    then obtain k where "k < length (drop (Suc j) srvs)" and "s = drop (Suc j) srvs ! k"
      by (auto simp: in_set_conv_nth)
    then show "hostport s \<noteq> Some me"
      using assms(3) by simp
  qed
  have "self_scan me i srvs sid
        = self_scan me i (take j srvs @ (srvs ! j # drop (Suc j) srvs)) sid"
    using split by simp
  also have "\<dots> = self_scan me (i + j + 1) (drop (Suc j) srvs) (of_nat (i + j))"
    using assms(1,2) by (simp add: self_scan_append min_def)
  also have "\<dots> = of_nat (i + j)"
    using rest by (rule self_scan_none)
  finally show ?thesis .
qed

section \<open>The ring builder, point by point\<close>

lemma byte_and_255: "(b :: 8 word) AND 0xFF = b"
proof -
  have full: "(0xFF :: 8 word) = - 1"
    by simp
  show ?thesis
    unfolding full by simp
qed

lemma bytes_or_add:
  fixes b0 b1 b2 b3 :: "8 word"
  shows "push_bit 24 (ucast b3 :: 32 word) OR push_bit 16 (ucast b2) OR push_bit 8 (ucast b1) OR ucast b0
       = push_bit 24 (ucast b3) + (push_bit 16 (ucast b2) + (push_bit 8 (ucast b1) + ucast b0))"
proof -
  have 1: "push_bit 8 (ucast b1 :: 32 word) + ucast b0 = push_bit 8 (ucast b1) OR ucast b0"
    by (rule disjunctive_add_eq_or) (rule bit_word_eqI, auto simp: bit_simps dest: bit_imp_le_length)
  have 2: "push_bit 16 (ucast b2 :: 32 word) + (push_bit 8 (ucast b1) OR ucast b0)
           = push_bit 16 (ucast b2) OR (push_bit 8 (ucast b1) OR ucast b0)"
    by (rule disjunctive_add_eq_or) (rule bit_word_eqI, auto simp: bit_simps dest: bit_imp_le_length)
  have 3: "push_bit 24 (ucast b3 :: 32 word) + (push_bit 16 (ucast b2) OR (push_bit 8 (ucast b1) OR ucast b0))
           = push_bit 24 (ucast b3) OR (push_bit 16 (ucast b2) OR (push_bit 8 (ucast b1) OR ucast b0))"
    by (rule disjunctive_add_eq_or) (rule bit_word_eqI, auto simp: bit_simps dest: bit_imp_le_length)
  show ?thesis
    by (simp add: 1 2 3 or.assoc)
qed

lemma digest_point_eq: "digest_point d nn = pointFromDigest d (4 * nn)"
  unfolding digest_point_def pointFromDigest_def NUM_PER_HASH_def byte_and_255 bytes_or_add
  by (simp add: push_bit_eq_mult ac_simps)

lemma digest_points_eq:
  "digest_points d ss = map (\<lambda>n. \<lparr>index = of_nat ss, point = pointFromDigest d (4 * n)\<rparr>) [0..<4]"
  by (simp add: digest_points_def digest_point_eq NUM_PER_HASH_def)

lemma utoa_digit: "k < 10 \<Longrightarrow> utoa k = [digit_char k]"
  by (subst utoa.simps) simp

lemma utoa_length:
  assumes "h < 100"
  shows "length (utoa h) \<le> 2"
proof (cases "h < 10")
  case True
  then show ?thesis
    by (simp add: utoa_digit)
next
  case False
  from assms have "h div 10 < 10"
    by simp
  then have "utoa (h div 10) = [digit_char (h div 10)]"
    by (rule utoa_digit)
  with False show ?thesis
    by (subst utoa.simps) simp
qed

lemma host_bytes_fits:
  "length a + 1 + length (utoa h) < sz \<Longrightarrow> host_bytes sz a h = Inr (a @ ''-'' @ utoa h)"
  by (simp add: host_bytes_def Let_def)

lemma hashes_loop_fits:
  assumes "hostport srv = Some a" and "length a + 3 < sz" and "\<forall>h \<in> set hhs. h < 100"
  shows "hashes_loop md5 sz ss srv hhs
         = Inr (concat (map (\<lambda>h. digest_points (md5 (a @ ''-'' @ utoa h)) ss) hhs))"
  using assms(3)
proof (induction hhs)
  case Nil
  then show ?case by simp
next
  case (Cons h hhs)
  then have "length (utoa h) \<le> 2"
    by (simp add: utoa_length)
  then have "host_bytes sz a h = Inr (a @ ''-'' @ utoa h)"
    using assms(2) by (intro host_bytes_fits) simp
  with Cons assms(1) show ?case
    by simp
qed

lemma hashes_loop_address_points:
  assumes "hostport srv = Some a" and "length a + 3 < sz"
  shows "hashes_loop md5 sz ss srv [0..<NUM_OF_HASHES] = Inr (address_points md5 ss a)"
proof -
  have "\<forall>h \<in> set [0..<NUM_OF_HASHES]. h < 100"
    by (simp add: NUM_OF_HASHES_def)
  from hashes_loop_fits [OF assms this]
  show ?thesis
    by (simp add: address_points_def digest_points_eq NUM_OF_HASHES_def)
qed

lemma servers_loop_fits:
  assumes "map hostport srvs = map Some addrs" and "\<forall>a \<in> set addrs. length a + 3 < sz"
  shows "servers_loop md5 sz ss srvs
         = Inr (concat (map (\<lambda>s. address_points md5 (ss + s) (addrs ! s)) [0..<length addrs]))"
  using assms
proof (induction srvs arbitrary: ss addrs)
  case Nil
  then show ?case by simp
next
  case (Cons srv rest)
  then obtain a as where addrs: "addrs = a # as"
    by (cases addrs) auto
  with Cons.prems have head: "hostport srv = Some a" "length a + 3 < sz"
    and tail: "map hostport rest = map Some as" "\<forall>a \<in> set as. length a + 3 < sz"
    by auto
  have shift: "[0..<length (a # as)] = 0 # map Suc [0..<length as]"
    by (simp add: upt_conv_Cons map_Suc_upt del: upt_Suc)
  show ?case
    unfolding addrs shift
    by (simp add: hashes_loop_address_points [OF head] Cons.IH [OF tail] comp_def)
qed

lemma servers_loop_spec:
  assumes "map hostport srvs = map Some addrs" and "\<forall>a \<in> set addrs. length a + 3 < sz"
  shows "servers_loop md5 sz 0 srvs = Inr (ring_points_spec md5 addrs)"
  using servers_loop_fits [OF assms, of md5 0] by (simp add: ring_points_spec_def)

lemma length_address_points: "length (address_points md5 s a) = 160"
  by (simp add: address_points_def length_concat comp_def sum_list_triv)

lemma length_ring_points_spec: "length (ring_points_spec md5 addrs) = 160 * length addrs"
  by (simp add: ring_points_spec_def length_concat comp_def length_address_points sum_list_triv)

lemma hashes_loop_shape:
  "hashes_loop md5 sz ss srv hhs = Inr ps
   \<Longrightarrow> length ps = 4 * length hhs \<and> (\<forall>p \<in> set ps. index p = of_nat ss)"
proof (induction hhs arbitrary: ps)
  case Nil
  then show ?case by simp
next
  case (Cons h hhs)
  then show ?case
    by (auto simp: digest_points_def NUM_PER_HASH_def split: option.splits sum.splits)
qed

lemma servers_loop_shape:
  "servers_loop md5 sz ss srvs = Inr ps
   \<Longrightarrow> length ps = 160 * length srvs
       \<and> (\<forall>p \<in> set ps. \<exists>s. ss \<le> s \<and> s < ss + length srvs \<and> index p = of_nat s)"
proof (induction srvs arbitrary: ss ps)
  case Nil
  then show ?case by simp
next
  case (Cons srv rest)
  from Cons.prems obtain qs rs where
    qs: "hashes_loop md5 sz ss srv [0..<NUM_OF_HASHES] = Inr qs"
    and rs: "servers_loop md5 sz (ss + 1) rest = Inr rs"
    and ps: "ps = qs @ rs"
    by (auto split: sum.splits)
  from hashes_loop_shape [OF qs]
  have q: "length qs = 160" "\<forall>p \<in> set qs. index p = of_nat ss"
    by (simp_all add: NUM_OF_HASHES_def)
  from Cons.IH [OF rs]
  have r: "length rs = 160 * length rest"
    "\<forall>p \<in> set rs. \<exists>s. ss + 1 \<le> s \<and> s < ss + 1 + length rest \<and> index p = of_nat s"
    by simp_all
  have "\<exists>s. ss \<le> s \<and> s < ss + length (srv # rest) \<and> index p = of_nat s" if "p \<in> set ps" for p
  proof (cases "p \<in> set qs")
    case True
    with q(2) show ?thesis
      by (intro exI [of _ ss]) simp
  next
    case False
    with that ps have "p \<in> set rs"
      by simp
    with r(2) obtain s where "ss + 1 \<le> s" "s < ss + 1 + length rest" "index p = of_nat s"
      by blast
    then show ?thesis
      by (intro exI [of _ s]) simp
  qed
  with q(1) r(1) ps show ?case
    by simp
qed

subsection \<open>Sorting and the result of the builder\<close>

lemma cmp_le_iff: "continuum_item_cmp a b \<le> 0 \<longleftrightarrow> point a \<le> point b"
  by (auto simp: continuum_item_cmp_def)

lemma qsort_contract_facts:
  assumes "qsort_contract qsort"
  shows "length (qsort continuum_item_cmp xs) = length xs"
    and "set (qsort continuum_item_cmp xs) = set xs"
    and "sorted (map point (qsort continuum_item_cmp xs))"
proof -
  from assms have m: "mset (qsort continuum_item_cmp xs) = mset xs"
    and s: "sorted_wrt (\<lambda>a b. continuum_item_cmp a b \<le> 0) (qsort continuum_item_cmp xs)"
    by (simp_all add: qsort_contract_def)
  from m show "length (qsort continuum_item_cmp xs) = length xs"
    by (rule mset_eq_length)
  from m show "set (qsort continuum_item_cmp xs) = set xs"
    by (rule mset_eq_setD)
  from s show "sorted (map point (qsort continuum_item_cmp xs))"
    by (simp add: sorted_map cmp_le_iff)
qed

lemma mset_insert_cmp: "mset (insert_cmp cmp x xs) = add_mset x (mset xs)"
  by (induction xs) auto

lemma set_insert_cmp: "set (insert_cmp cmp x xs) = insert x (set xs)"
  by (induction xs) auto

lemma sorted_insert_cmp:
  "sorted_wrt (\<lambda>a b. continuum_item_cmp a b \<le> 0) xs
   \<Longrightarrow> sorted_wrt (\<lambda>a b. continuum_item_cmp a b \<le> 0) (insert_cmp continuum_item_cmp x xs)"
  by (induction xs) (auto simp: set_insert_cmp cmp_le_iff)

lemma insertion_qsort_contract: "qsort_contract insertion_qsort"
proof -
  have "mset (insertion_qsort continuum_item_cmp xs) = mset xs
        \<and> sorted_wrt (\<lambda>a b. continuum_item_cmp a b \<le> 0) (insertion_qsort continuum_item_cmp xs)"
    for xs
    by (induction xs) (simp_all add: insertion_qsort_def mset_insert_cmp sorted_insert_cmp)
  then show ?thesis
    by (simp add: qsort_contract_def)
qed

lemma generate_result:
  assumes "ketama_continuum_generate md5 qsort max_count srvs h = Inr (Some (ring, n), h')"
    and "qsort_contract qsort"
  shows "n = 160 * length srvs" and "length ring = 160 * length srvs"
    and "sorted (map point ring)" and "list_all (\<lambda>p. unat (index p) < length srvs) ring"
proof -
  from assms(1) obtain ps where
    small: "int (160 * length srvs) \<le> INT_MAX"
    and ps: "servers_loop md5 (max_count + 10) 0 srvs = Inr ps"
    and ring: "ring = qsort continuum_item_cmp ps" and n: "n = length ps"
    by (auto simp: ketama_continuum_generate_def points_per_server_def NUM_OF_HASHES_def
          NUM_PER_HASH_def split: prod.splits bool.splits if_splits sum.splits)
  from servers_loop_shape [OF ps]
  have len: "length ps = 160 * length srvs"
    and idx: "\<forall>p \<in> set ps. \<exists>s. s < length srvs \<and> index p = of_nat s"
    by auto
  from len n show "n = 160 * length srvs"
    by simp
  from len ring show "length ring = 160 * length srvs"
    by (simp add: qsort_contract_facts(1) [OF assms(2)])
  from ring show "sorted (map point ring)"
    by (simp add: qsort_contract_facts(3) [OF assms(2)])
  have "unat (index p) < length srvs" if "p \<in> set ring" for p
  proof -
    from that ring have "p \<in> set ps"
      by (simp add: qsort_contract_facts(2) [OF assms(2)])
    with idx obtain s where s: "s < length srvs" "index p = of_nat s"
      by blast
    from s(1) small have "s < 2 ^ 32"
      by (simp add: INT_MAX_def)
    then have "unat (of_nat s :: 32 word) = s"
      by (simp add: unat_of_nat)
    with s show ?thesis
      by simp
  qed
  then show "list_all (\<lambda>p. unat (index p) < length srvs) ring"
    by (simp add: list_all_iff)
qed

section \<open>The search of the resolver\<close>

lemma first_index_Cons: "ring \<noteq> [] \<Longrightarrow> first_index ring = Inr (index (ring ! 0))"
  by (cases ring) (simp_all add: first_index_def)

lemma search_step_in_range:
  assumes "0 \<le> low" and "low \<le> high" and "high \<le> int (length ring)" and "ring \<noteq> []"
  shows "case search_step ring (int (length ring)) digest low high of
           Inl r \<Rightarrow> (\<exists>i < length ring. r = Inr (index (ring ! i)))
         | Inr (low', high') \<Rightarrow> 0 \<le> low' \<and> low' \<le> high' \<and> high' \<le> int (length ring)"
proof -
  define mid where "mid = midpoint low high"
  have mid: "low \<le> mid" "mid \<le> high"
    using assms(2) by (auto simp: mid_def midpoint_alt)
  have first: "\<exists>i < length ring. first_index ring = Inr (index (ring ! i))"
    using assms(4) by (auto simp: first_index_Cons)
  show ?thesis
  proof (cases "mid = int (length ring)")
    case True
    then show ?thesis
      using first by (simp add: search_step_def mid_def [symmetric])
  next
    case False
    then have inside: "0 \<le> mid" "nat mid < length ring"
      using mid assms(1,3) by auto
    then have here: "\<exists>i < length ring. index (ring ! nat mid) = index (ring ! i)"
      by blast
    show ?thesis
      using False inside mid assms(1,3) first here
      by (simp add: search_step_def mid_def [symmetric] Let_def)
  qed
qed

lemma continuum_search_total:
  assumes "0 \<le> low" and "low \<le> high" and "high \<le> int (length ring)" and "ring \<noteq> []"
  shows "\<exists>i < length ring.
           continuum_search ring (int (length ring)) digest low high = Inr (index (ring ! i))"
  using assms
proof (induction ring "int (length ring)" digest low high rule: continuum_search.induct)
  case (1 ring digest low high)
  show ?case
  proof (cases "search_step ring (int (length ring)) digest low high")
    case (Inl r)
    with search_step_in_range [OF "1.prems", of digest] show ?thesis
      by (subst continuum_search.simps) auto
  next
    case (Inr b)
    obtain low' high' where b: "b = (low', high')"
      by (cases b)
    from search_step_in_range [OF "1.prems", of digest] Inr b
    have "0 \<le> low'" "low' \<le> high'" "high' \<le> int (length ring)"
      by auto
    from "1.hyps" [OF Inr b [symmetric] this "1.prems"(4)]
    show ?thesis
      by (subst continuum_search.simps) (simp add: Inr b)
  qed
qed

lemma search_step_above:
  assumes "\<forall>p \<in> set ring. point p < digest" and "0 \<le> low" and "low < int (length ring)"
  shows "search_step ring (int (length ring)) digest low (int (length ring))
         = Inr (midpoint low (int (length ring)) + 1, int (length ring))"
proof -
  define mid where "mid = midpoint low (int (length ring))"
  have mid: "low \<le> mid" "mid < int (length ring)"
    using assms(3) by (auto simp: mid_def midpoint_alt)
  then have "ring ! nat mid \<in> set ring"
    using assms(2) by simp
  with assms(1) have below: "point (ring ! nat mid) < digest"
    by blast
  then have "\<not> digest \<le> point (ring ! nat mid)"
    by simp
  with below show ?thesis
    using mid assms(2) by (simp add: search_step_def mid_def [symmetric] Let_def)
qed

lemma continuum_search_above:
  assumes "\<forall>p \<in> set ring. point p < digest" and "0 \<le> low" and "low \<le> int (length ring)"
    and "ring \<noteq> []"
  shows "continuum_search ring (int (length ring)) digest low (int (length ring))
         = Inr (index (ring ! 0))"
  using assms(2,3)
proof (induction "nat (int (length ring) - low)" arbitrary: low rule: less_induct)
  case less
  show ?case
  proof (cases "low = int (length ring)")
    case True
    then have "search_step ring (int (length ring)) digest low (int (length ring))
               = Inl (first_index ring)"
      by (simp add: search_step_def midpoint_alt)
    then show ?thesis
      using assms(4) by (subst continuum_search.simps) (simp add: first_index_Cons)
  next
    case False
    with less.prems have low: "low < int (length ring)"
      by simp
    define low' where "low' = midpoint low (int (length ring)) + 1"
    have step: "search_step ring (int (length ring)) digest low (int (length ring))
                = Inr (low', int (length ring))"
      unfolding low'_def using assms(1) less.prems(1) low by (rule search_step_above)
    have bounds: "low < low'" "low' \<le> int (length ring)"
      using low by (auto simp: low'_def midpoint_alt)
    then have "continuum_search ring (int (length ring)) digest low' (int (length ring))
               = Inr (index (ring ! 0))"
      using less.prems(1) by (intro less.hyps) auto
    then show ?thesis
      by (subst continuum_search.simps) (simp add: step)
  qed
qed

section \<open>Reconfiguration\<close>

lemma populate_True:
  assumes "server_item_populate self sl h sid = Inr (True, bufs, srvs, sid', h')"
  shows "bufs = map token_buffer sl" and "srvs = map token_server sl"
    and "self = Some me \<Longrightarrow> sid' = self_scan me 0 srvs sid"
proof -
  from assms obtain h1 srvs0 where
    loop: "server_item_populate_loop self 0 sl h1 sid = Inr (True, bufs, srvs0, sid', h')"
    and srvs: "srvs = srvs0"
    by (auto simp: server_item_populate_def split: prod.splits bool.splits sum.splits if_splits)
  from populate_loop_True [OF loop] srvs
  show "bufs = map token_buffer sl" and "srvs = map token_server sl"
    by simp_all
  show "sid' = self_scan me 0 srvs sid" if "self = Some me"
    using populate_loop_scan [of me 0 sl h1 sid bufs srvs0 sid' h'] loop srvs that by simp
qed

lemma populate_loop_no_self:
  "server_item_populate_loop None i toks h sid = Inr (ok, bufs, srvs, sid', h') \<Longrightarrow> sid' = sid"
proof (induction toks arbitrary: i h bufs srvs)
  case Nil
  then show ?case by (simp split: if_splits)
next
  case (Cons tok rest)
  then show ?case
    by (auto split: if_splits prod.splits option.splits sum.splits bool.splits)
qed

lemma populate_loop_granted:
  "int (i + length toks) \<le> INT_MAX
   \<Longrightarrow> server_item_populate_loop (Some me) i toks [] sid
       = Inr (True, map token_buffer toks, map token_server toks,
              self_scan me i (map token_server toks) sid, [])"
proof (induction toks arbitrary: i sid)
  case Nil
  then show ?case by simp
next
  case (Cons tok rest)
  from Cons.prems have i: "\<not> INT_MAX < int i" and rest: "int (i + 1 + length rest) \<le> INT_MAX"
    by simp_all
  show ?case
  proof (cases "strtok_r tok (CHR ''-'')")
    case (Pair t buf)
    show ?thesis
    proof (cases t)
      case None
      with Pair i Cons.IH [OF rest] show ?thesis
        by (simp add: token_buffer_def token_server_def)
    next
      case (Some k)
      with Pair i Cons.IH [OF rest] show ?thesis
        by (simp add: token_buffer_def token_server_def eq_commute [of me])
    qed
  qed
qed

lemma populate_granted:
  "int (length sl) \<le> INT_MAX
   \<Longrightarrow> server_item_populate (Some me) sl [] sid
       = Inr (True, map token_buffer sl, map token_server sl,
              self_scan me 0 (map token_server sl) sid, [])"
  using populate_loop_granted [of 0 sl me sid] by (simp add: server_item_populate_def)

lemma generate_granted:
  assumes "map hostport srvs = map Some addrs" and "\<forall>a \<in> set addrs. length a + 3 < max_count + 10"
    and "int (160 * length srvs) \<le> INT_MAX"
  shows "ketama_continuum_generate md5 qsort max_count srvs []
         = Inr (Some (qsort continuum_item_cmp (ring_points_spec md5 addrs), 160 * length srvs), [])"
proof -
  from assms(1) have "length srvs = length addrs"
    by (rule map_eq_imp_length_eq)
  with assms(3) servers_loop_spec [OF assms(1,2), of md5] show ?thesis
    by (simp add: ketama_continuum_generate_def points_per_server_def NUM_OF_HASHES_def
          NUM_PER_HASH_def length_ring_points_spec)
qed

lemma reconfigure_granted:
  assumes "self_hostport c = Some me"
    and "map hostport (map token_server sl) = map Some addrs"
    and "\<forall>a \<in> set addrs. length a + 3 < max_count + 10"
    and "int (160 * length sl) \<le> INT_MAX"
  shows "cluster_config_reconfigure md5 qsort max_count c sl []
         = Inr (True,
                c\<lparr>self_id := self_scan me 0 (map token_server sl) 0,
                  num_servers := int (length sl),
                  servers := Some (map token_server sl),
                  continuum := Some (qsort continuum_item_cmp (ring_points_spec md5 addrs)),
                  num_continuum := int (160 * length sl),
                  is_valid := True\<rparr>,
                map token_buffer sl)"
proof -
  from assms(4) have "int (length sl) \<le> INT_MAX"
    by simp
  from populate_granted [OF this, of me 0]
  have pop: "server_item_populate (self_hostport c) sl [] 0
        = Inr (True, map token_buffer sl, map token_server sl,
               self_scan me 0 (map token_server sl) 0, [])"
    using assms(1) by simp
  from assms(4) have "int (160 * length (map token_server sl)) \<le> INT_MAX"
    by simp
  from generate_granted [OF assms(2,3) this, of md5 qsort]
  show ?thesis
    by (simp add: cluster_config_reconfigure_def pop)
qed

lemma reconfigure_cases:
  assumes "cluster_config_reconfigure md5 qsort max_count c sl h = Inr (ok, c', sl')"
  shows "(\<not> ok \<and> c' = c\<lparr>is_valid := False\<rparr>)
       \<or> (ok \<and> (\<exists>sid h1 ring n h2.
              server_item_populate (self_hostport c) sl h 0
                = Inr (True, sl', map token_server sl, sid, h1)
              \<and> ketama_continuum_generate md5 qsort max_count (map token_server sl) h1
                = Inr (Some (ring, n), h2)
              \<and> c' = c\<lparr>self_id := sid, num_servers := int (length sl),
                        servers := Some (map token_server sl), continuum := Some ring,
                        num_continuum := int n, is_valid := True\<rparr>))"
proof (cases "server_item_populate (self_hostport c) sl h 0")
  case (Inl e)
  with assms show ?thesis
    by (simp add: cluster_config_reconfigure_def)
next
  case (Inr r)
  obtain populated bufs srvs sid h1 where r: "r = (populated, bufs, srvs, sid, h1)"
    by (cases r)
  show ?thesis
  proof (cases populated)
    case False
    with assms Inr r show ?thesis
      by (simp add: cluster_config_reconfigure_def)
  next
    case True
    with Inr r have pop: "server_item_populate (self_hostport c) sl h 0
                          = Inr (True, bufs, srvs, sid, h1)"
      by simp
    from populate_True(2) [OF pop] have srvs: "srvs = map token_server sl" .
    from assms pop srvs show ?thesis
      by (auto simp: cluster_config_reconfigure_def split: sum.splits option.splits prod.splits)
  qed
qed

lemma token_server_a: "token_server ''a'' = \<lparr>hostport = Some ''a''\<rparr>"
  by (simp add: token_server_def strtok_r_def strspn_def strcspn_def at_end_def NUL_def cstr_def)

lemma token_buffer_a: "token_buffer ''a'' = ''a''"
  by (simp add: token_buffer_def strtok_r_def strspn_def strcspn_def at_end_def NUL_def)

lemma reconfigure_installed_a:
  "cluster_config_reconfigure length_digest insertion_qsort 100 node_a [''a''] []
   = Inr (True, installed_a, [''a''])"
proof -
  have "cluster_config_reconfigure length_digest insertion_qsort 100 node_a [''a''] []
        = Inr (True,
               node_a\<lparr>self_id := self_scan ''a'' 0 (map token_server [''a'']) 0,
                  num_servers := int (length [''a'']),
                  servers := Some (map token_server [''a'']),
                  continuum := Some (insertion_qsort continuum_item_cmp
                                       (ring_points_spec length_digest [''a''])),
                  num_continuum := int (160 * length [''a'']),
                  is_valid := True\<rparr>,
               map token_buffer [''a''])"
    by (rule reconfigure_granted)
       (simp_all add: node_a_def token_server_a INT_MAX_def)
  then show ?thesis
    by (simp add: installed_a_def token_server_a token_buffer_a)
qed

lemma installed_a_fields:
  "is_valid installed_a" "self_id installed_a = 0" "num_continuum installed_a = 160"
  "servers installed_a = Some [\<lparr>hostport = Some ''a''\<rparr>]"
  "continuum installed_a
     = Some (insertion_qsort continuum_item_cmp (ring_points_spec length_digest [''a'']))"
  by (simp_all add: installed_a_def node_a_def fresh_config_def)

lemma reconfigure_invariant:
  assumes "cluster_config_reconfigure md5 qsort max_count c sl h = Inr (ok, c', sl')"
    and "qsort_contract qsort"
  shows "cluster_invariant c'"
  using reconfigure_cases [OF assms(1)]
proof (elim disjE conjE exE)
  assume "c' = c\<lparr>is_valid := False\<rparr>"
  then show ?thesis
    by (simp add: cluster_invariant_def)
next
  fix sid h1 ring n h2
  assume gen: "ketama_continuum_generate md5 qsort max_count (map token_server sl) h1
               = Inr (Some (ring, n), h2)"
    and c': "c' = c\<lparr>self_id := sid, num_servers := int (length sl),
                     servers := Some (map token_server sl), continuum := Some ring,
                     num_continuum := int n, is_valid := True\<rparr>"
  from generate_result [OF gen assms(2)] c' show ?thesis
    by (simp add: cluster_invariant_def)
qed

lemma installed_a_invariant: "cluster_invariant installed_a"
  using reconfigure_invariant [OF reconfigure_installed_a insertion_qsort_contract] .

lemma installed_a_ring:
  "insertion_qsort continuum_item_cmp (ring_points_spec length_digest [''a'']) \<noteq> []"
proof -
  have "length (insertion_qsort continuum_item_cmp (ring_points_spec length_digest [''a''])) = 160"
    by (simp add: qsort_contract_facts(1) [OF insertion_qsort_contract] length_ring_points_spec)
  then show ?thesis
    by auto
qed

section \<open>The claims on failure and on the fail-safe answer\<close>

text \<open>
  Claim C6. Whenever \<^verbatim>\<open>cluster_config_reconfigure\<close> fails in its registry stage
  (\<^verbatim>\<open>server_item_populate\<close> returns false) or in its ring-builder stage
  (\<^verbatim>\<open>ketama_continuum_generate\<close> returns false), it returns false, the validity flag is
  false afterwards, and the number of servers, the number of ring points, the server
  list, the ring and the self index are those from before the call: the state is the old
  state with the flag cleared.
\<close>

theorem reconfigure_failure_keeps_state:
  assumes "server_item_populate (self_hostport c) sl h 0 = Inr (False, sl', srvs, sid, h1)
         \<or> (server_item_populate (self_hostport c) sl h 0 = Inr (True, sl', srvs, sid, h1)
            \<and> ketama_continuum_generate md5 qsort max_count srvs h1 = Inr (None, h2))"
  shows "\<exists>c'. cluster_config_reconfigure md5 qsort max_count c sl h = Inr (False, c', sl')
            \<and> is_valid c' = False
            \<and> num_servers c' = num_servers c
            \<and> num_continuum c' = num_continuum c
            \<and> servers c' = servers c
            \<and> continuum c' = continuum c
            \<and> self_id c' = self_id c
            \<and> c' = c\<lparr>is_valid := False\<rparr>"
  using assms by (auto simp: cluster_config_reconfigure_def)

theorem reconfigure_failure_keeps_state_witness:
  "cluster_config_reconfigure length_digest insertion_qsort 100 installed_a [''b-x''] [False]
     = Inr (False, installed_a\<lparr>is_valid := False\<rparr>, [''b-x''])
   \<and> num_servers (installed_a\<lparr>is_valid := False\<rparr>) = 1
   \<and> num_continuum (installed_a\<lparr>is_valid := False\<rparr>) = 160
   \<and> cluster_config_reconfigure length_digest insertion_qsort 100 installed_a [''b-x'']
        [True, True, False]
     = Inr (False, installed_a\<lparr>is_valid := False\<rparr>, [[CHR ''b'', CHR 0x00, CHR ''x'']])"
proof -
  have registry: "server_item_populate (self_hostport installed_a) [''b-x''] [False] 0
                  = Inr (False, [''b-x''], [], 0, [])"
    by (simp add: server_item_populate_def)
  have builder: "server_item_populate (self_hostport installed_a) [''b-x''] [True, True, False] 0
                  = Inr (True, [[CHR ''b'', CHR 0x00, CHR ''x'']], [\<lparr>hostport = Some ''b''\<rparr>], 0, [False])"
    "ketama_continuum_generate length_digest insertion_qsort 100 [\<lparr>hostport = Some ''b''\<rparr>] [False]
       = Inr (None, [])"
    by (simp_all add: server_item_populate_def installed_a_def node_a_def fresh_config_def
          strtok_r_def strspn_def strcspn_def at_end_def NUL_def cstr_def INT_MAX_def
          ketama_continuum_generate_def)
  from reconfigure_failure_keeps_state
         [of installed_a "[''b-x'']" "[False]" "[''b-x'']" "[]" 0 "[]", OF disjI1, OF registry]
       reconfigure_failure_keeps_state
         [of installed_a "[''b-x'']" "[True, True, False]" "[[CHR ''b'', CHR 0x00, CHR ''x'']]"
             "[\<lparr>hostport = Some ''b''\<rparr>]" 0 "[False]" length_digest insertion_qsort 100 "[]",
          OF disjI2, OF conjI, OF builder]
  show ?thesis
    by (auto simp: installed_a_fields installed_a_def node_a_def fresh_config_def)
qed




section \<open>The invariant of the cluster state and the end of the search\<close>

lemma init_invariant: "cluster_config_init h = Some c \<Longrightarrow> cluster_invariant c"
  by (auto simp: cluster_config_init_def cluster_invariant_def split: prod.splits bool.splits)

lemma run_operation_invariant:
  assumes "qsort_contract qsort" and "cluster_invariant c"
    and "run_operation md5 qsort max_count c op = Inr c'"
  shows "cluster_invariant c'"
proof (cases op)
  case (SetHostport hp n h)
  with assms(3) obtain v where "c' = c\<lparr>self_hostport := v\<rparr>"
    by (auto simp: run_operation_def cluster_config_set_hostport_def
             split: if_splits prod.splits bool.splits)
  with assms(2) show ?thesis
    by (auto simp: cluster_invariant_def split: option.splits)
next
  case (Reconfigure sl h)
  with assms(3) obtain ok sl' where
    "cluster_config_reconfigure md5 qsort max_count c sl h = Inr (ok, c', sl')"
    by (auto simp: run_operation_def split: sum.splits)
  from reconfigure_invariant [OF this assms(1)] show ?thesis .
next
  case (KeyIsMine key)
  with assms(3) have "c' = c"
    by (auto simp: run_operation_def split: sum.splits)
  with assms(2) show ?thesis
    by simp
qed

lemma run_operations_invariant:
  assumes "qsort_contract qsort"
  shows "cluster_invariant c \<Longrightarrow> run_operations md5 qsort max_count c ops = Inr c'
         \<Longrightarrow> cluster_invariant c'"
proof (induction ops arbitrary: c)
  case Nil
  then show ?case by simp
next
  case (Cons op ops)
  from Cons.prems(2) obtain c1 where
    one: "run_operation md5 qsort max_count c op = Inr c1"
    and more: "run_operations md5 qsort max_count c1 ops = Inr c'"
    by (auto split: sum.splits)
  from run_operation_invariant [OF assms Cons.prems(1) one] more show ?case
    by (rule Cons.IH)
qed

text \<open>
  Claim C2. Whenever the validity flag is true, the ring has 160 points for each server
  of the server list, it ascends by point value, and the server index of each of its
  points is an index of the server list (\<open>cluster_invariant\<close>, which also says that the
  two counters are the lengths of the two arrays). Every operation that returns keeps the
  predicate: a reconfiguration that succeeds, one that fails, the resolver and the
  setting of the address; so every state that a run of operations reaches from
  \<^verbatim>\<open>cluster_config_init\<close> has it. \<^verbatim>\<open>qsort\<close> is any function that keeps the contract of
  the C library.
\<close>

theorem operations_keep_invariant:
  assumes "qsort_contract qsort"
  shows "(cluster_invariant c \<and> run_operation md5 qsort max_count c op = Inr c'
            \<longrightarrow> cluster_invariant c')
       \<and> (cluster_config_init h = Some c0 \<and> run_operations md5 qsort max_count c0 ops = Inr c1
            \<longrightarrow> cluster_invariant c1)"
  using run_operation_invariant [OF assms] run_operations_invariant [OF assms] init_invariant
  by blast

lemma key_is_mine_installed_a:
  "\<exists>r. cluster_config_key_is_mine length_digest installed_a key = Inr r"
proof -
  let ?ring = "insertion_qsort continuum_item_cmp (ring_points_spec length_digest [''a''])"
  have "length ?ring = 160"
    by (simp add: qsort_contract_facts(1) [OF insertion_qsort_contract] length_ring_points_spec)
  with continuum_search_total [of 0 "int (length ?ring)" ?ring "hash_ketama length_digest key"]
       installed_a_ring
  show ?thesis
    by (auto simp: cluster_config_key_is_mine_def installed_a_fields)
qed

theorem operations_keep_invariant_witness:
  "cluster_invariant node_a
   \<and> run_operation length_digest insertion_qsort 100 node_a (Reconfigure [''a''] []) = Inr installed_a
   \<and> is_valid installed_a
   \<and> cluster_invariant installed_a
   \<and> run_operations length_digest insertion_qsort 100 fresh_config
        [SetHostport ''a'' 1 [], Reconfigure [''a''] [], KeyIsMine ''key'',
         Reconfigure [''b''] [False]]
      = Inr (installed_a\<lparr>is_valid := False\<rparr>)
   \<and> cluster_invariant (installed_a\<lparr>is_valid := False\<rparr>)"
proof -
  have start: "cluster_invariant node_a"
    by (simp add: cluster_invariant_def node_a_def fresh_config_def)
  have one: "run_operation length_digest insertion_qsort 100 node_a (Reconfigure [''a''] [])
             = Inr installed_a"
    by (simp add: run_operation_def reconfigure_installed_a)
  obtain r where r: "cluster_config_key_is_mine length_digest installed_a ''key'' = Inr r"
    using key_is_mine_installed_a by blast
  have failed: "cluster_config_reconfigure length_digest insertion_qsort 100 installed_a [''b''] [False]
     = Inr (False, installed_a\<lparr>is_valid := False\<rparr>, [''b''])"
    by (simp add: cluster_config_reconfigure_def server_item_populate_def)
  have run: "run_operations length_digest insertion_qsort 100 fresh_config
        [SetHostport ''a'' 1 [], Reconfigure [''a''] [], KeyIsMine ''key'',
         Reconfigure [''b''] [False]]
      = Inr (installed_a\<lparr>is_valid := False\<rparr>)"
    by (simp add: run_operation_def set_hostport_node_a reconfigure_installed_a r failed
          del: One_nat_def)
  from operations_keep_invariant
         [OF insertion_qsort_contract, of node_a length_digest 100 "Reconfigure [''a''] []"
            installed_a "[]" fresh_config
            "[SetHostport ''a'' 1 [], Reconfigure [''a''] [], KeyIsMine ''key'',
              Reconfigure [''b''] [False]]"
            "installed_a\<lparr>is_valid := False\<rparr>"]
  have "cluster_invariant installed_a"
    and "cluster_invariant (installed_a\<lparr>is_valid := False\<rparr>)"
    using start one run init_fresh by blast+
  with start one run show ?thesis
    by (simp only: installed_a_fields simp_thms)
qed

text \<open>
  Claim C10. On every valid cluster state with at least one ring point, the search loop
  of \<^verbatim>\<open>cluster_config_key_is_mine\<close> ends: a round that does not leave the loop goes on
  with limits \<open>low' \<le> high'\<close> that are strictly closer to each other, and the call
  returns the server index of a ring point together with the comparison with the self
  index. (\<open>continuum_search\<close> is a total function by its termination proof, whose measure
  is the distance of the limits.)
\<close>

theorem resolve_terminates:
  assumes "is_valid c" and "cluster_invariant c" and "continuum c = Some ring" and "ring \<noteq> []"
  shows "(\<forall>digest low high low' high'.
            search_step ring (num_continuum c) digest low high = Inr (low', high')
            \<longrightarrow> low' \<le> high' \<and> high' - low' < high - low)
       \<and> (\<exists>i < length ring.
            cluster_config_key_is_mine md5 c key
            = Inr (index (ring ! i) = self_id c, Some (index (ring ! i), self_id c)))"
proof -
  from assms have n: "num_continuum c = int (length ring)"
    by (auto simp: cluster_invariant_def split: option.splits)
  from continuum_search_total [of 0 "int (length ring)" ring "hash_ketama md5 key"] assms(4)
  obtain i where i: "i < length ring"
    and "continuum_search ring (int (length ring)) (hash_ketama md5 key) 0 (int (length ring))
         = Inr (index (ring ! i))"
    by auto
  with assms(1,3) n have
    "cluster_config_key_is_mine md5 c key
     = Inr (index (ring ! i) = self_id c, Some (index (ring ! i), self_id c))"
    by (simp add: cluster_config_key_is_mine_def)
  with i search_step_shrinks show ?thesis
    by blast
qed

theorem resolve_terminates_witness:
  "is_valid installed_a
   \<and> (\<exists>i < 160.
        cluster_config_key_is_mine length_digest installed_a ''key''
        = Inr (index (insertion_qsort continuum_item_cmp
                        (ring_points_spec length_digest [''a'']) ! i) = 0,
               Some (index (insertion_qsort continuum_item_cmp
                              (ring_points_spec length_digest [''a'']) ! i), 0)))"
proof -
  let ?ring = "insertion_qsort continuum_item_cmp (ring_points_spec length_digest [''a''])"
  have len: "length ?ring = 160"
    by (simp add: qsort_contract_facts(1) [OF insertion_qsort_contract] length_ring_points_spec)
  from resolve_terminates
         [OF installed_a_fields(1) installed_a_invariant installed_a_fields(5) installed_a_ring,
          of length_digest "''key''"]
  show ?thesis
    by (simp add: installed_a_fields len)
qed

section \<open>The wraparound of the ring\<close>

lemma hash_ketama_eq: "hash_ketama md5 key = pointFromDigest (md5 key) 0"
  unfolding hash_ketama_def pointFromDigest_def Let_def bytes_or_add
  by (simp add: push_bit_eq_mult ac_simps numeral_2_eq_2 numeral_3_eq_3)

lemma length_digest_point:
  "pointFromDigest (length_digest s) off
   = of_nat (16843009 * unat (of_nat (length s) :: 8 word))"
  by (simp add: pointFromDigest_def length_digest_def)

lemma utoa_length_cases:
  assumes "h < 100"
  shows "length (utoa h) = 1 \<or> length (utoa h) = 2"
proof (cases "h < 10")
  case True
  then show ?thesis
    by (simp add: utoa_digit)
next
  case False
  from assms have "h div 10 < 10"
    by simp
  then have "utoa (h div 10) = [digit_char (h div 10)]"
    by (rule utoa_digit)
  with False show ?thesis
    by (subst (2) utoa.simps) simp
qed

lemma ring_a_points:
  assumes "p \<in> set (ring_points_spec length_digest [''a''])"
  shows "point p = 50529027 \<or> point p = 67372036"
proof -
  from assms obtain h n where h: "h < 40"
    and p: "point p = pointFromDigest (length_digest (''a'' @ ''-'' @ utoa h)) (4 * n)"
    by (auto simp: ring_points_spec_def address_points_def)
  from h have "length (utoa h) = 1 \<or> length (utoa h) = 2"
    by (intro utoa_length_cases) simp
  then show ?thesis
    by (auto simp: p length_digest_point)
qed

text \<open>
  Claim C1, as it is stated, fails on the valid state with no ring point. A
  reconfiguration with an empty server list succeeds when \<^verbatim>\<open>calloc\<close> grants its two
  requests of no bytes; it installs an empty ring and sets the validity flag. Every key
  is above every ring point then, \<^verbatim>\<open>midp == endp\<close> holds at once, and
  \<^verbatim>\<open>beginp->index\<close> reads an entry that is not there.
\<close>

theorem wraparound_empty_ring:
  "cluster_config_reconfigure length_digest insertion_qsort 100 node_a [] []
     = Inr (True, node_a\<lparr>servers := Some [], continuum := Some [], is_valid := True\<rparr>, [])
   \<and> cluster_config_key_is_mine length_digest
        (node_a\<lparr>servers := Some [], continuum := Some [], is_valid := True\<rparr>) ''key''
     = Inl UndefinedBehaviour"
proof -
  have "search_step [] 0 (hash_ketama length_digest ''key'') 0 0 = Inl (Inl UndefinedBehaviour)"
    by (simp add: search_step_def midpoint_alt first_index_def)
  then have "continuum_search [] 0 (hash_ketama length_digest ''key'') 0 0 = Inl UndefinedBehaviour"
    by (subst continuum_search.simps) simp
  then show ?thesis
    by (simp add: cluster_config_reconfigure_def server_item_populate_def
          ketama_continuum_generate_def insertion_qsort_def INT_MAX_def
          cluster_config_key_is_mine_def node_a_def fresh_config_def)
qed

text \<open>
  Claim C1, amended. On every valid cluster state with at least one ring point, for every
  key whose ketama digest is strictly greater than the value of every ring point,
  \<^verbatim>\<open>cluster_config_key_is_mine\<close> writes as owning server the server index of the ring
  entry at index 0, which has the smallest point of the ring, and returns whether that is
  the self index.
\<close>

theorem wraparound:
  assumes "is_valid c" and "cluster_invariant c" and "continuum c = Some ring" and "ring \<noteq> []"
    and "\<forall>p \<in> set ring. point p < hash_ketama md5 key"
  shows "cluster_config_key_is_mine md5 c key
           = Inr (index (ring ! 0) = self_id c, Some (index (ring ! 0), self_id c))
       \<and> (\<forall>p \<in> set ring. point (ring ! 0) \<le> point p)"
proof -
  from assms(1-3) have n: "num_continuum c = int (length ring)"
    and sorted: "sorted (map point ring)"
    by (auto simp: cluster_invariant_def split: option.splits)
  from continuum_search_above [OF assms(5) _ _ assms(4), of 0]
  have "continuum_search ring (int (length ring)) (hash_ketama md5 key) 0 (int (length ring))
        = Inr (index (ring ! 0))"
    by simp
  with assms(1,3) n have answer:
    "cluster_config_key_is_mine md5 c key
     = Inr (index (ring ! 0) = self_id c, Some (index (ring ! 0), self_id c))"
    by (simp add: cluster_config_key_is_mine_def)
  have "point (ring ! 0) \<le> point p" if "p \<in> set ring" for p
  proof -
    from that obtain i where i: "i < length ring" "p = ring ! i"
      by (auto simp: in_set_conv_nth)
    with sorted have "map point ring ! 0 \<le> map point ring ! i"
      by (intro sorted_nth_mono) simp_all
    with i assms(4) show ?thesis
      by simp
  qed
  with answer show ?thesis
    by blast
qed

theorem wraparound_witness:
  "is_valid installed_a
   \<and> hash_ketama length_digest ''key-above'' = 151587081
   \<and> cluster_config_key_is_mine length_digest installed_a ''key-above''
     = Inr (index (insertion_qsort continuum_item_cmp
                     (ring_points_spec length_digest [''a'']) ! 0) = 0,
            Some (index (insertion_qsort continuum_item_cmp
                           (ring_points_spec length_digest [''a'']) ! 0), 0))"
proof -
  let ?ring = "insertion_qsort continuum_item_cmp (ring_points_spec length_digest [''a''])"
  have key: "hash_ketama length_digest ''key-above'' = 151587081"
    by (simp add: hash_ketama_eq length_digest_point)
  have "point p < hash_ketama length_digest ''key-above''" if "p \<in> set ?ring" for p
  proof -
    from that have "p \<in> set (ring_points_spec length_digest [''a''])"
      by (simp add: qsort_contract_facts(2) [OF insertion_qsort_contract])
    from ring_a_points [OF this] show ?thesis
      by (auto simp: key)
  qed
  then have above: "\<forall>p \<in> set ?ring. point p < hash_ketama length_digest ''key-above''"
    by blast
  from wraparound
         [OF installed_a_fields(1) installed_a_invariant installed_a_fields(5) installed_a_ring
             above]
  show ?thesis
    by (simp add: installed_a_fields key)
qed

section \<open>The self index\<close>

lemma token_server_plain:
  "token_server ''b'' = \<lparr>hostport = Some ''b''\<rparr>"
  "token_server ''c'' = \<lparr>hostport = Some ''c''\<rparr>"
  "token_server ''b-x'' = \<lparr>hostport = Some ''b''\<rparr>"
  by (simp_all add: token_server_def strtok_r_def strspn_def strcspn_def at_end_def NUL_def cstr_def)

lemma token_buffer_plain:
  "token_buffer ''b'' = ''b''"
  "token_buffer ''c'' = ''c''"
  "token_buffer ''b-x'' = [CHR ''b'', CHR 0x00, CHR ''x'']"
  by (simp_all add: token_buffer_def strtok_r_def strspn_def strcspn_def at_end_def NUL_def)

lemma reconfigure_self_id:
  assumes "cluster_config_reconfigure md5 qsort max_count c sl h = Inr (True, c', sl')"
  shows "servers c' = Some (map token_server sl)"
    and "self_hostport c = Some me \<Longrightarrow> self_id c' = self_scan me 0 (map token_server sl) 0"
    and "self_hostport c = None \<Longrightarrow> self_id c' = 0"
    and "sl' = map token_buffer sl"
proof -
  from reconfigure_cases [OF assms] obtain sid h1 ring n where
    pop: "server_item_populate (self_hostport c) sl h 0
          = Inr (True, sl', map token_server sl, sid, h1)"
    and c': "c' = c\<lparr>self_id := sid, num_servers := int (length sl),
                     servers := Some (map token_server sl), continuum := Some ring,
                     num_continuum := int n, is_valid := True\<rparr>"
    by auto
  from c' show "servers c' = Some (map token_server sl)"
    by simp
  from populate_True(1) [OF pop] show "sl' = map token_buffer sl" .
  show "self_id c' = self_scan me 0 (map token_server sl) 0" if "self_hostport c = Some me"
    using populate_True(3) [OF pop that] c' by simp
  show "self_id c' = 0" if "self_hostport c = None"
  proof -
    from pop that obtain h0 srvs0 where
      "server_item_populate_loop None 0 sl h0 0 = Inr (True, sl', srvs0, sid, h1)"
      by (auto simp: server_item_populate_def split: prod.splits bool.splits sum.splits if_splits)
    from populate_loop_no_self [OF this] c' show ?thesis
      by simp
  qed
qed

text \<open>
  Claim C4, as it is stated, fails when two entries have the address of the node. The
  loop of \<^verbatim>\<open>server_item_populate\<close> assigns \<^verbatim>\<open>*self_id = i\<close> at every entry that matches
  (its \<^verbatim>\<open>break\<close> leaves the loop over \<^verbatim>\<open>strtok_r\<close>, not the loop over the entries), so
  the entry at index 1 overwrites the entry at index 0.
\<close>

theorem self_index_first_occurrence_fails:
  "cluster_config_reconfigure length_digest insertion_qsort 100 node_a [''a'', ''a''] []
   = Inr (True,
          node_a\<lparr>self_id := 1, num_servers := 2,
                 servers := Some [\<lparr>hostport = Some ''a''\<rparr>, \<lparr>hostport = Some ''a''\<rparr>],
                 continuum := Some (insertion_qsort continuum_item_cmp
                                      (ring_points_spec length_digest [''a'', ''a''])),
                 num_continuum := 320, is_valid := True\<rparr>,
          [''a'', ''a''])"
proof -
  have "cluster_config_reconfigure length_digest insertion_qsort 100 node_a [''a'', ''a''] []
        = Inr (True,
               node_a\<lparr>self_id := self_scan ''a'' 0 (map token_server [''a'', ''a'']) 0,
                  num_servers := int (length [''a'', ''a'']),
                  servers := Some (map token_server [''a'', ''a'']),
                  continuum := Some (insertion_qsort continuum_item_cmp
                                       (ring_points_spec length_digest [''a'', ''a''])),
                  num_continuum := int (160 * length [''a'', ''a'']),
                  is_valid := True\<rparr>,
               map token_buffer [''a'', ''a''])"
    by (rule reconfigure_granted)
       (simp_all add: node_a_def token_server_a INT_MAX_def)
  then show ?thesis
    by (simp add: token_server_a token_buffer_a)
qed

text \<open>
  Claim C4, amended. After a successful reconfiguration of a node with an address, if
  the entry \<open>j\<close> of the installed server list has the address of the node and no later
  entry has it, the installed self index is \<open>j\<close>: the last occurrence wins.
\<close>

theorem self_index_last_occurrence:
  assumes "cluster_config_reconfigure md5 qsort max_count c sl h = Inr (True, c', sl')"
    and "self_hostport c = Some me" and "servers c' = Some srvs"
    and "j < length srvs" and "hostport (srvs ! j) = Some me"
    and "\<forall>k. j < k \<and> k < length srvs \<longrightarrow> hostport (srvs ! k) \<noteq> Some me"
  shows "self_id c' = of_nat j"
proof -
  from reconfigure_self_id(1) [OF assms(1)] assms(3)
  have srvs: "map token_server sl = srvs"
    by simp
  from reconfigure_self_id(2) [OF assms(1,2)] srvs
  have "self_id c' = self_scan me 0 srvs 0"
    by simp
  with self_scan_last [OF assms(4-6), of 0 0] show ?thesis
    by simp
qed

theorem self_index_last_occurrence_witness:
  "\<exists>c'. cluster_config_reconfigure length_digest insertion_qsort 100 node_a
           [''a'', ''b-x'', ''a''] []
         = Inr (True, c', [''a'', [CHR ''b'', CHR 0x00, CHR ''x''], ''a''])
       \<and> servers c' = Some [\<lparr>hostport = Some ''a''\<rparr>, \<lparr>hostport = Some ''b''\<rparr>,
                             \<lparr>hostport = Some ''a''\<rparr>]
       \<and> self_id c' = 2"
proof -
  let ?sl = "[''a'', ''b-x'', ''a'']"
  let ?c = "node_a\<lparr>self_id := self_scan ''a'' 0 (map token_server ?sl) 0,
                  num_servers := int (length ?sl),
                  servers := Some (map token_server ?sl),
                  continuum := Some (insertion_qsort continuum_item_cmp
                                       (ring_points_spec length_digest [''a'', ''b'', ''a''])),
                  num_continuum := int (160 * length ?sl),
                  is_valid := True\<rparr>"
  have run: "cluster_config_reconfigure length_digest insertion_qsort 100 node_a ?sl []
        = Inr (True, ?c, map token_buffer ?sl)"
    by (rule reconfigure_granted)
       (simp_all add: node_a_def token_server_a token_server_plain INT_MAX_def)
  have srvs: "servers ?c = Some [\<lparr>hostport = Some ''a''\<rparr>, \<lparr>hostport = Some ''b''\<rparr>,
                             \<lparr>hostport = Some ''a''\<rparr>]"
    by (simp add: token_server_a token_server_plain)
  have last: "\<forall>k. 2 < k \<and> k < length [\<lparr>hostport = Some ''a''\<rparr>, \<lparr>hostport = Some ''b''\<rparr>,
                             \<lparr>hostport = Some ''a''\<rparr>]
               \<longrightarrow> hostport ([\<lparr>hostport = Some ''a''\<rparr>, \<lparr>hostport = Some ''b''\<rparr>,
                             \<lparr>hostport = Some ''a''\<rparr>] ! k) \<noteq> Some ''a''"
    by auto
  have "self_id ?c = of_nat 2"
    by (rule self_index_last_occurrence [OF run _ srvs _ _ last])
       (simp_all add: node_a_def)
  with run srvs show ?thesis
    by (intro exI [of _ ?c]) (simp add: token_buffer_a token_buffer_plain)
qed

text \<open>
  Claim C8, as it is stated, fails when the self index was not 0 before the call. The
  node \<open>a\<close> is reconfigured with the servers \<open>b\<close> and \<open>a\<close>, which installs the self index
  1, and then with the servers \<open>b\<close> and \<open>c\<close>: the local \<^verbatim>\<open>self_id\<close> of
  \<^verbatim>\<open>cluster_config_reconfigure\<close> starts at 0, no entry matches, and 0 is installed.
\<close>

theorem self_index_not_kept:
  "cluster_config_reconfigure length_digest insertion_qsort 100 node_a [''b'', ''a''] []
   = Inr (True,
          node_a\<lparr>self_id := 1, num_servers := 2,
                 servers := Some [\<lparr>hostport = Some ''b''\<rparr>, \<lparr>hostport = Some ''a''\<rparr>],
                 continuum := Some (insertion_qsort continuum_item_cmp
                                      (ring_points_spec length_digest [''b'', ''a''])),
                 num_continuum := 320, is_valid := True\<rparr>,
          [''b'', ''a''])
   \<and> cluster_config_reconfigure length_digest insertion_qsort 100
        (node_a\<lparr>self_id := 1, num_servers := 2,
                servers := Some [\<lparr>hostport = Some ''b''\<rparr>, \<lparr>hostport = Some ''a''\<rparr>],
                continuum := Some (insertion_qsort continuum_item_cmp
                                     (ring_points_spec length_digest [''b'', ''a''])),
                num_continuum := 320, is_valid := True\<rparr>)
        [''b'', ''c''] []
   = Inr (True,
          node_a\<lparr>self_id := 0, num_servers := 2,
                 servers := Some [\<lparr>hostport = Some ''b''\<rparr>, \<lparr>hostport = Some ''c''\<rparr>],
                 continuum := Some (insertion_qsort continuum_item_cmp
                                      (ring_points_spec length_digest [''b'', ''c''])),
                 num_continuum := 320, is_valid := True\<rparr>,
          [''b'', ''c''])"
proof -
  let ?c1 = "node_a\<lparr>self_id := 1, num_servers := 2,
                servers := Some [\<lparr>hostport = Some ''b''\<rparr>, \<lparr>hostport = Some ''a''\<rparr>],
                continuum := Some (insertion_qsort continuum_item_cmp
                                     (ring_points_spec length_digest [''b'', ''a''])),
                num_continuum := 320, is_valid := True\<rparr>"
  have "cluster_config_reconfigure length_digest insertion_qsort 100 node_a [''b'', ''a''] []
        = Inr (True,
               node_a\<lparr>self_id := self_scan ''a'' 0 (map token_server [''b'', ''a'']) 0,
                  num_servers := int (length [''b'', ''a'']),
                  servers := Some (map token_server [''b'', ''a'']),
                  continuum := Some (insertion_qsort continuum_item_cmp
                                       (ring_points_spec length_digest [''b'', ''a''])),
                  num_continuum := int (160 * length [''b'', ''a'']),
                  is_valid := True\<rparr>,
               map token_buffer [''b'', ''a''])"
    by (rule reconfigure_granted)
       (simp_all add: node_a_def token_server_a token_server_plain INT_MAX_def)
  then have first: "cluster_config_reconfigure length_digest insertion_qsort 100 node_a [''b'', ''a''] []
        = Inr (True, ?c1, [''b'', ''a''])"
    by (simp add: token_server_a token_server_plain token_buffer_a token_buffer_plain)
  have "cluster_config_reconfigure length_digest insertion_qsort 100 ?c1 [''b'', ''c''] []
        = Inr (True,
               ?c1\<lparr>self_id := self_scan ''a'' 0 (map token_server [''b'', ''c'']) 0,
                  num_servers := int (length [''b'', ''c'']),
                  servers := Some (map token_server [''b'', ''c'']),
                  continuum := Some (insertion_qsort continuum_item_cmp
                                       (ring_points_spec length_digest [''b'', ''c''])),
                  num_continuum := int (160 * length [''b'', ''c'']),
                  is_valid := True\<rparr>,
               map token_buffer [''b'', ''c''])"
    by (rule reconfigure_granted)
       (simp_all add: node_a_def token_server_plain INT_MAX_def)
  then have second: "cluster_config_reconfigure length_digest insertion_qsort 100 ?c1 [''b'', ''c''] []
        = Inr (True,
          node_a\<lparr>self_id := 0, num_servers := 2,
                 servers := Some [\<lparr>hostport = Some ''b''\<rparr>, \<lparr>hostport = Some ''c''\<rparr>],
                 continuum := Some (insertion_qsort continuum_item_cmp
                                      (ring_points_spec length_digest [''b'', ''c''])),
                 num_continuum := 320, is_valid := True\<rparr>,
          [''b'', ''c''])"
    by (simp add: token_server_plain token_buffer_plain)
  from first second show ?thesis
    by (rule conjI)
qed

text \<open>
  Claim C8, amended. After a successful reconfiguration in which no entry of the
  installed server list has the address of the node, the installed self index is 0,
  whatever it was before the call.
\<close>

theorem self_index_reset:
  assumes "cluster_config_reconfigure md5 qsort max_count c sl h = Inr (True, c', sl')"
    and "servers c' = Some srvs"
    and "\<forall>s \<in> set srvs. hostport s \<noteq> self_hostport c"
  shows "self_id c' = 0"
proof (cases "self_hostport c")
  case None
  from reconfigure_self_id(3) [OF assms(1) None] show ?thesis .
next
  case (Some me)
  from reconfigure_self_id(1) [OF assms(1)] assms(2)
  have srvs: "map token_server sl = srvs"
    by simp
  from assms(3) Some have "\<forall>s \<in> set srvs. hostport s \<noteq> Some me"
    by simp
  from self_scan_none [OF this, of 0 0] reconfigure_self_id(2) [OF assms(1) Some] srvs
  show ?thesis
    by simp
qed

theorem self_index_reset_witness:
  "\<exists>c'. cluster_config_reconfigure length_digest insertion_qsort 100
           (node_a\<lparr>self_id := 1\<rparr>) [''b'', ''c''] []
         = Inr (True, c', [''b'', ''c''])
       \<and> servers c' = Some [\<lparr>hostport = Some ''b''\<rparr>, \<lparr>hostport = Some ''c''\<rparr>]
       \<and> self_id c' = 0"
proof -
  let ?sl = "[''b'', ''c'']"
  let ?c = "node_a\<lparr>self_id := 1\<rparr>
              \<lparr>self_id := self_scan ''a'' 0 (map token_server ?sl) 0,
               num_servers := int (length ?sl),
               servers := Some (map token_server ?sl),
               continuum := Some (insertion_qsort continuum_item_cmp
                                    (ring_points_spec length_digest [''b'', ''c''])),
               num_continuum := int (160 * length ?sl),
               is_valid := True\<rparr>"
  have run: "cluster_config_reconfigure length_digest insertion_qsort 100
               (node_a\<lparr>self_id := 1\<rparr>) ?sl []
             = Inr (True, ?c, map token_buffer ?sl)"
    by (rule reconfigure_granted)
       (simp_all add: node_a_def token_server_plain INT_MAX_def)
  have srvs: "servers ?c = Some [\<lparr>hostport = Some ''b''\<rparr>, \<lparr>hostport = Some ''c''\<rparr>]"
    by (simp add: token_server_plain)
  have "self_id ?c = 0"
    by (rule self_index_reset [OF run srvs]) (simp add: node_a_def)
  with run srvs show ?thesis
    by (intro exI [of _ ?c]) (simp add: token_buffer_plain)
qed

section \<open>The cut of a token\<close>








section \<open>The canonical address\<close>

text \<open>
  For a token that starts with a character other than a dash, the address kept is the
  part of the token before its first dash, or the whole token when it has none.
\<close>

lemma token_server_canonical:
  assumes "cstr tok \<noteq> []" and "hd tok \<noteq> CHR ''-''"
  shows "token_server tok = \<lparr>hostport = Some (takeWhile (\<lambda>c. c \<noteq> CHR ''-'') (cstr tok))\<rparr>"
proof -
  define b where "b = takeWhile (\<lambda>c. c \<noteq> CHR ''-'' \<and> c \<noteq> NUL) tok"
  define t where "t = dropWhile (\<lambda>c. c \<noteq> CHR ''-'' \<and> c \<noteq> NUL) tok"
  have tok: "tok = b @ t"
    by (simp add: b_def t_def)
  from assms(1) obtain x xs where first: "tok = x # xs" "x \<noteq> NUL"
    by (cases tok) (auto simp: cstr_def split: if_splits)
  with assms(2) have start: "strspn tok (CHR ''-'') = 0" "\<not> at_end tok 0"
    by (simp_all add: strspn_def at_end_def)
  have b: "\<And>c. c \<in> set b \<Longrightarrow> c \<noteq> CHR ''-''" and b_NUL: "\<And>c. c \<in> set b \<Longrightarrow> c \<noteq> NUL"
    by (auto simp: b_def dest: set_takeWhileD)
  have stop: "strcspn tok (CHR ''-'') = length b"
    by (simp add: strcspn_def b_def)
  have end_b: "at_end tok (length b) \<longleftrightarrow> t = [] \<or> hd t = NUL"
    by (cases t) (simp_all add: at_end_def tok nth_append)
  have cstr_tok: "cstr tok = b @ takeWhile (\<lambda>c. c \<noteq> NUL) t"
    unfolding cstr_def tok using b_NUL by (rule takeWhile_append2)
  have keep_b: "takeWhile (\<lambda>c. c \<noteq> CHR ''-'') b = b"
    using b by (simp add: takeWhile_eq_all_conv)
  show ?thesis
  proof (cases "t = [] \<or> hd t = NUL")
    case True
    then have "takeWhile (\<lambda>c. c \<noteq> NUL) t = []"
      by (cases t) auto
    with cstr_tok have whole: "cstr tok = b"
      by simp
    from True have "token_server tok = \<lparr>hostport = Some (cstr tok)\<rparr>"
      by (simp add: token_server_def strtok_r_def Let_def start stop end_b)
    then show ?thesis
      unfolding whole keep_b .
  next
    case False
    then have "\<not> (hd t \<noteq> CHR ''-'' \<and> hd t \<noteq> NUL)"
      unfolding t_def using hd_dropWhile [of "\<lambda>c. c \<noteq> CHR ''-'' \<and> c \<noteq> NUL" tok] by blast
    with False obtain t' where t': "t = CHR ''-'' # t'"
      by (cases t) auto
    have cut: "tok[length b := NUL] = b @ NUL # t'"
      by (simp add: tok t' list_update_append)
    have "cstr (b @ NUL # t') = b @ takeWhile (\<lambda>c. c \<noteq> NUL) (NUL # t')"
      unfolding cstr_def using b_NUL by (rule takeWhile_append2)
    then have after: "cstr (tok[length b := NUL]) = b"
      by (simp add: cut)
    have "takeWhile (\<lambda>c. c \<noteq> CHR ''-'') (cstr tok)
          = b @ takeWhile (\<lambda>c. c \<noteq> CHR ''-'') (takeWhile (\<lambda>c. c \<noteq> NUL) t)"
      unfolding cstr_tok using b by (rule takeWhile_append2)
    also have "\<dots> = b"
      by (simp add: t' NUL_def)
    finally have canonical: "takeWhile (\<lambda>c. c \<noteq> CHR ''-'') (cstr tok) = b" .
    from False have "token_server tok = \<lparr>hostport = Some (cstr (tok[length b := NUL]))\<rparr>"
      by (simp add: token_server_def strtok_r_def Let_def start stop end_b)
    then show ?thesis
      unfolding after canonical .
  qed
qed

text \<open>
  Claim C5 says that the address kept for a token is its part before the first dash, or
  the token itself when it has no dash, one address for each token. The code does not do
  this for every token. \<^verbatim>\<open>strtok_r\<close> skips the dashes at the start of a token and cuts at
  the first dash after them, and \<^verbatim>\<open>strdup\<close> copies from the start of the buffer: the
  token \<open>-a-b\<close> keeps the address \<open>-a\<close>, where the claim has the empty address. For the
  empty token \<^verbatim>\<open>strtok_r\<close> returns \<^verbatim>\<open>NULL\<close>, the body of the loop does not run, and the
  entry keeps a \<^verbatim>\<open>NULL\<close> address, where the claim has the empty address. The token
  \<open>host:1-zoneA\<close> keeps \<open>host:1\<close>, as the claim says.
\<close>

theorem canonical_address_leading_separator:
  "server_item_populate (Some ''a'') [''-a-b'', '''', ''host:1-zoneA''] [] 0
   = Inr (True,
          [[CHR ''-'', CHR ''a'', CHR 0x00, CHR ''b''], '''',
           [CHR ''h'', CHR ''o'', CHR ''s'', CHR ''t'', CHR '':'', CHR ''1'', CHR 0x00,
            CHR ''z'', CHR ''o'', CHR ''n'', CHR ''e'', CHR ''A'']],
          [\<lparr>hostport = Some ''-a''\<rparr>, \<lparr>hostport = None\<rparr>, \<lparr>hostport = Some ''host:1''\<rparr>],
          0, [])"
  by (simp add: server_item_populate_def strtok_r_def strspn_def strcspn_def at_end_def
        NUL_def cstr_def INT_MAX_def)

section \<open>The points of a server whose address does not fit\<close>

lemma utoa_0: "utoa 0 = [digit_char 0]"
  by (simp add: utoa_digit)

lemma utoa_examples: "digit_char 0 = CHR ''0''" "utoa 39 = ''39''" "utoa 7 = ''7''"
  by code_simp+

text \<open>
  Claim C3 says that for every server list the bytes hashed for server \<open>s\<close> and round
  \<open>h\<close> are the address, a dash and \<open>h\<close> in decimal. The code does this when the
  formatted string fits the array \<^verbatim>\<open>host\<close> (\<open>servers_loop_spec\<close> and \<open>generate_granted\<close>
  above: an address with fewer than \<^verbatim>\<open>MAX_SERVER_ITEM_COUNT+7\<close> characters), and not
  otherwise. \<^verbatim>\<open>snprintf\<close> cuts the string to the array and returns the length of the
  uncut string, which \<^verbatim>\<open>hash_md5\<close> takes as the number of bytes to read: for an address
  of \<^verbatim>\<open>MAX_SERVER_ITEM_COUNT+10\<close> characters the digest reads beyond the array; for one of
  \<^verbatim>\<open>MAX_SERVER_ITEM_COUNT+8\<close> characters it reads the address, the dash and the
  terminator in place of the digit. An entry with a \<^verbatim>\<open>NULL\<close> address, which the empty
  token leaves, is passed to \<^verbatim>\<open>%s\<close>.
\<close>

theorem ring_points_overlong_address:
  "ketama_continuum_generate md5 qsort max_count
     [\<lparr>hostport = Some (replicate (max_count + 10) (CHR ''a''))\<rparr>] []
   = Inl UndefinedBehaviour
   \<and> host_bytes (max_count + 10) (replicate (max_count + 8) (CHR ''a'')) 0
   = Inr (replicate (max_count + 8) (CHR ''a'') @ [CHR ''-'', NUL])
   \<and> ketama_continuum_generate md5 qsort max_count [\<lparr>hostport = None\<rparr>] []
   = Inl UndefinedBehaviour"
proof -
  have hashes: "[0..<NUM_OF_HASHES] = 0 # [1..<NUM_OF_HASHES]"
    by (simp add: NUM_OF_HASHES_def upt_conv_Cons)
  have long: "host_bytes (max_count + 10) (replicate (max_count + 10) (CHR ''a'')) 0
              = Inl UndefinedBehaviour"
    by (simp add: host_bytes_def utoa_0)
  have exact: "host_bytes (max_count + 10) (replicate (max_count + 8) (CHR ''a'')) 0
               = Inr (replicate (max_count + 8) (CHR ''a'') @ [CHR ''-'', NUL])"
    by (simp add: host_bytes_def utoa_0)
  have small: "\<not> INT_MAX < int (points_per_server * 1)"
    by (simp add: INT_MAX_def points_per_server_def NUM_OF_HASHES_def NUM_PER_HASH_def)
  from long exact small show ?thesis
    by (simp add: ketama_continuum_generate_def hashes)
qed

end
